theory Spec2Isabelle
  imports Main "HOL-Library.Word"
begin

unbundle bit_operations_syntax

section \<open>Common data model\<close>

type_synonym byte = "8 word"
type_synonym u32 = "32 word"

text \<open>
  The messages of the source's \<open>TORCH_CHECK\<close>s, one constructor each:
  "Can't allocate buffer for tensor", "Parallel file read failed",
  "I/O error reading tensor", "... have incompatible shapes" and "... is incorrect datatype".
\<close>

datatype error = AllocError | ReadFailed | IOError | ShapeError | DTypeError

text \<open>
  How a call ends. \<open>Returned m\<close>: the function returns with memory \<open>m\<close>.
  \<open>Raised e m\<close>: a \<open>TORCH_CHECK\<close> throws \<open>e\<close>, memory being \<open>m\<close> at the throw.
  \<open>Undefined\<close>: the C++ has undefined behaviour (an access outside a buffer, a division by
  zero). \<open>Blocked\<close>: the schedule handed to the model ends before every thread has finished.
\<close>

datatype 'm outcome = Returned 'm | Raised error 'm | Undefined | Blocked

section \<open>Row remapper\<close>

text \<open>
  Only \<open>kInt\<close> matters to the source (\<open>TORCH_CHECK_DTYPE(_, kInt)\<close>); every other scalar
  type is \<open>kOther\<close>. A matrix is a contiguous row-major tensor of two dimensions, an index a
  tensor of one dimension; \<open>data_ptr()\<close> is cast to \<open>uint32_t*\<close>, so the storage is a list of
  32-bit words, and an entry of the index is read as an unsigned 32-bit number. The counters
  \<open>rows\<close>, \<open>cols\<close>, \<open>r\<close>, \<open>c\<close> and \<open>b\<close> are \<open>int\<close> in the source and natural numbers here,
  which is the source for sizes below \<open>2^31\<close>.
\<close>

datatype dtype = kInt | kOther

record matrix =
  size0 :: nat
  size1 :: nat
  mdtype :: dtype
  mdata :: "u32 list"

record idx_tensor =
  isize0 :: nat
  idtype :: dtype
  idata :: "u32 list"

definition wf_matrix :: "matrix \<Rightarrow> bool" where
  "wf_matrix t = (length (mdata t) = size0 t * size1 t)"

definition wf_index :: "idx_tensor \<Rightarrow> bool" where
  "wf_index ix = (length (idata ix) = isize0 ix)"

text \<open>
  Modelled from the spec: the macro \<open>TORCH_CHECK_SHAPES(x, i, y, j, scale)\<close> of
  \<open>cpp/util.h\<close>, which is not among the sources. The spec: the dense remap "fails if the
  index length does not equal the number of columns", and for the packed one
  \<open>logicalCols == packedCols * 8\<close>. So the check passes when the first size equals the
  second times the scale.
\<close>

definition TORCH_CHECK_SHAPES :: "nat \<Rightarrow> nat \<Rightarrow> nat \<Rightarrow> bool" where
  "TORCH_CHECK_SHAPES x y scale_y = (x = y * scale_y)"

text \<open>
  The inner loop of \<open>tensor_remap\<close>: \<open>for (c = 0; c < cols; ++c) *a++ = temp[idx[c]]\<close>.
  The state is the column counter \<open>c\<close>, the write pointer \<open>a\<close> (an offset into the storage) and
  the storage. \<open>temp\<close> has \<open>cols\<close> elements: reading it at \<open>idx[c] \<ge> cols\<close> is outside the
  allocation, whence \<open>None\<close>; so are a read of \<open>idx\<close> and a write of the storage past
  their ends.
\<close>

function remap_cols ::
  "u32 list \<Rightarrow> u32 list \<Rightarrow> nat \<Rightarrow> nat \<Rightarrow> nat \<Rightarrow> u32 list \<Rightarrow> (nat \<times> u32 list) option" where
  "remap_cols temp idx cols c a d =
     (if c < cols then
        (if c < length idx \<and> unat (idx ! c) < length temp \<and> a < length d
         then remap_cols temp idx cols (c + 1) (a + 1) (d[a := temp ! unat (idx ! c)])
         else None)
      else Some (a, d))"
  by pat_completeness auto
termination
  by (relation "measure (\<lambda>(temp, idx, cols, c, a, d). cols - c)") auto

text \<open>
  The outer loop: \<open>for (r = 0; r < rows; ++r) { memcpy(temp, a, 4 * cols); ... }\<close>.
  \<open>temp\<close> (\<open>calloc(cols, 4)\<close>, taken to succeed: the source does not test it) is the
  \<open>cols\<close> words of the storage from \<open>a\<close> on; a \<open>memcpy\<close> that reads past the end of the
  storage is \<open>None\<close>.
\<close>

function remap_rows ::
  "u32 list \<Rightarrow> nat \<Rightarrow> nat \<Rightarrow> nat \<Rightarrow> nat \<Rightarrow> u32 list \<Rightarrow> u32 list option" where
  "remap_rows idx rows cols r a d =
     (if r < rows then
        (if a + cols \<le> length d then
           (case remap_cols (take cols (drop a d)) idx cols 0 a d of
              None \<Rightarrow> None
            | Some (a', d') \<Rightarrow> remap_rows idx rows cols (r + 1) a' d')
         else None)
      else Some d)"
  by pat_completeness auto
termination
  by (relation "measure (\<lambda>(idx, rows, cols, r, a, d). rows - r)") auto

definition tensor_remap :: "matrix \<Rightarrow> idx_tensor \<Rightarrow> matrix outcome" where
  "tensor_remap tensor ix =
     (if \<not> TORCH_CHECK_SHAPES (size1 tensor) (isize0 ix) 1 then Raised ShapeError tensor
      else if mdtype tensor \<noteq> kInt then Raised DTypeError tensor
      else if idtype ix \<noteq> kInt then Raised DTypeError tensor
      else
        (case remap_rows (idata ix) (size0 tensor) (size1 tensor) 0 0 (mdata tensor) of
           None \<Rightarrow> Undefined
         | Some d \<Rightarrow> Returned (tensor\<lparr>mdata := d\<rparr>)))"

text \<open>
  The packed variant. One output word: \<open>rv = 0; for (b = 0; b < 8; ++b, ++c) { i = idx[c];
  v = (temp[i / 8] >> ((i & 7) * 4)) & 0x0f; rv |= v << (b * 4); }\<close>; \<open>i\<close> is a \<open>uint32_t\<close>.
  \<open>temp\<close> has \<open>cols / 8\<close> words.
\<close>

function remap_nibbles ::
  "u32 list \<Rightarrow> u32 list \<Rightarrow> nat \<Rightarrow> nat \<Rightarrow> u32 \<Rightarrow> (nat \<times> u32) option" where
  "remap_nibbles temp idx b c rv =
     (if b < 8 then
        (if c < length idx \<and> unat (idx ! c div 8) < length temp then
           (let i = idx ! c;
                v = drop_bit (unat ((i AND 7) * 4)) (temp ! unat (i div 8)) AND 0x0f
            in remap_nibbles temp idx (b + 1) (c + 1) (rv OR push_bit (b * 4) v))
         else None)
      else Some (c, rv))"
  by pat_completeness auto
termination
  by (relation "measure (\<lambda>(temp, idx, b, c, rv). 8 - b)") auto

declare remap_cols.simps [simp del] remap_rows.simps [simp del] remap_nibbles.simps [simp del]

lemma remap_nibbles_counter:
  "remap_nibbles temp idx b c rv = Some (c', rv') \<Longrightarrow> c' = c + (8 - b)"
proof (induction temp idx b c rv rule: remap_nibbles.induct)
  case (1 temp idx b c rv)
  show ?case
  proof (cases "b < 8")
    case True
    from "1.prems" True have ok: "c < length idx \<and> unat (idx ! c div 8) < length temp"
      by (subst (asm) remap_nibbles.simps) (simp split: if_splits)
    from "1.prems" True ok have "remap_nibbles temp idx (b + 1) (c + 1)
        (rv OR push_bit (b * 4)
           (drop_bit (unat ((idx ! c AND 7) * 4)) (temp ! unat (idx ! c div 8)) AND 0x0f)) =
        Some (c', rv')"
      by (subst (asm) remap_nibbles.simps) (simp add: Let_def)
    from "1.IH"[OF True ok refl refl this] have "c' = (c + 1) + (8 - (b + 1))" .
    with True show ?thesis by simp
  next
    case False
    with "1.prems" show ?thesis by (subst (asm) remap_nibbles.simps) simp
  qed
qed

text \<open>The middle loop: \<open>for (c = 0; c < cols;) { ...; *a++ = rv; }\<close>.\<close>

function remap_words ::
  "u32 list \<Rightarrow> u32 list \<Rightarrow> nat \<Rightarrow> nat \<Rightarrow> nat \<Rightarrow> u32 list \<Rightarrow> (nat \<times> u32 list) option" where
  "remap_words temp idx cols c a d =
     (if c < cols then
        (case remap_nibbles temp idx 0 c 0 of
           None \<Rightarrow> None
         | Some (c', rv) \<Rightarrow>
             if a < length d then remap_words temp idx cols c' (a + 1) (d[a := rv]) else None)
      else Some (a, d))"
  by pat_completeness auto
termination
  by (relation "measure (\<lambda>(temp, idx, cols, c, a, d). cols - c)")
     (auto dest: remap_nibbles_counter)

text \<open>
  The outer loop: \<open>for (r = 0; r < rows; ++r) { memcpy(temp, a, sizeof(uint32_t) * cols / 8);
  ... }\<close>, where \<open>cols\<close> is the length of the index, a multiple of 8 once the shape check has
  passed: \<open>temp\<close> is the \<open>cols / 8\<close> words of the storage from \<open>a\<close> on.
\<close>

function remap_rows_4bit ::
  "u32 list \<Rightarrow> nat \<Rightarrow> nat \<Rightarrow> nat \<Rightarrow> nat \<Rightarrow> u32 list \<Rightarrow> u32 list option" where
  "remap_rows_4bit idx rows cols r a d =
     (if r < rows then
        (if a + cols div 8 \<le> length d then
           (case remap_words (take (cols div 8) (drop a d)) idx cols 0 a d of
              None \<Rightarrow> None
            | Some (a', d') \<Rightarrow> remap_rows_4bit idx rows cols (r + 1) a' d')
         else None)
      else Some d)"
  by pat_completeness auto
termination
  by (relation "measure (\<lambda>(idx, rows, cols, r, a, d). rows - r)") auto

declare remap_words.simps [simp del] remap_rows_4bit.simps [simp del]

definition tensor_remap_4bit :: "matrix \<Rightarrow> idx_tensor \<Rightarrow> matrix outcome" where
  "tensor_remap_4bit tensor ix =
     (if \<not> TORCH_CHECK_SHAPES (isize0 ix) (size1 tensor) 8 then Raised ShapeError tensor
      else if mdtype tensor \<noteq> kInt then Raised DTypeError tensor
      else if idtype ix \<noteq> kInt then Raised DTypeError tensor
      else
        (case remap_rows_4bit (idata ix) (size0 tensor) (isize0 ix) 0 0 (mdata tensor) of
           None \<Rightarrow> Undefined
         | Some d \<Rightarrow> Returned (tensor\<lparr>mdata := d\<rparr>)))"

subsection \<open>Vocabulary of the remapper's properties\<close>

text \<open>The \<open>b\<close>-th 4-bit logical element of a packed word, counted from the least significant.\<close>

definition nibble :: "nat \<Rightarrow> u32 \<Rightarrow> u32" where
  "nibble b x = drop_bit (b * 4) x AND 0x0f"

text \<open>The nibble the packed loop extracts for the logical element \<open>i\<close>.\<close>

definition src_nibble :: "u32 list \<Rightarrow> u32 \<Rightarrow> u32" where
  "src_nibble temp i = nibble (unat i mod 8) (temp ! (unat i div 8))"

text \<open>Every entry of the index is below \<open>n\<close>.\<close>

definition index_in_range :: "idx_tensor \<Rightarrow> nat \<Rightarrow> bool" where
  "index_in_range ix n = (\<forall>i \<in> set (idata ix). unat i < n)"

text \<open>The identity permutation: \<open>index[c] = c\<close> for every \<open>c\<close>.\<close>

definition identity_index :: "idx_tensor \<Rightarrow> bool" where
  "identity_index ix = (map unat (idata ix) = [0..<length (idata ix)])"

section \<open>Segment loader\<close>

subsection \<open>Configuration, environment and memory\<close>

text \<open>
  The constants \<open>STLOADER_THREADS\<close>, \<open>STLOADER_BLOCK_SIZE\<close> and \<open>STLOADER_COPY_THREADS\<close> come
  from \<open>ext_stloader.h\<close>, which is not among the sources: they are parameters of the model.
  Sizes and offsets are \<open>size_t\<close> in the source and natural numbers here; the model is the
  source as long as no sum of an offset and a block size reaches \<open>2^64\<close>.
\<close>

record config =
  STLOADER_THREADS :: nat
  STLOADER_BLOCK_SIZE :: nat
  STLOADER_COPY_THREADS :: nat

text \<open>
  What the call finds around it. \<open>file_bytes\<close>: the bytes of the file \<open>filename\<close>, \<open>None\<close> when
  \<open>fopen\<close> fails; the file does not change during the call. \<open>malloc_ok\<close>: whether
  \<open>malloc(size)\<close> returns a buffer; \<open>malloc_fill\<close>: the bytes that buffer holds before it is
  written. \<open>memcpy_ok a b\<close>: whether \<open>cudaMemcpyAsync\<close> of the block \<open>[a, b)\<close> returns
  \<open>cudaSuccess\<close>.
\<close>

record env =
  file_bytes :: "byte list option"
  malloc_ok :: bool
  malloc_fill :: "nat \<Rightarrow> byte"
  memcpy_ok :: "nat \<Rightarrow> nat \<Rightarrow> bool"

text \<open>The destination tensor: whether its device is the CPU, and its storage.\<close>

record target =
  target_cpu :: bool
  tdata :: "byte list"

datatype alloc = Unallocated | Live | Freed

text \<open>
  What the caller can observe once the call has ended: the storage of the destination, the
  state of the staging buffer (\<open>Live\<close> after the call is a leak), and the trace of the reads,
  queue operations and transfers the call performed. \<open>Pread off n pos\<close>: a \<open>pread\<close> of \<open>n\<close>
  bytes at the file offset \<open>off\<close> into \<open>load_buffer + pos\<close>. \<open>Push a b\<close>: the range \<open>(a, b)\<close>
  is appended to the queue. \<open>Notify_one\<close>, \<open>Notify_all\<close>: the condition variable is
  signalled. \<open>Memcpy a b\<close>: a \<open>cudaMemcpyAsync\<close> of the range \<open>[a, b)\<close> that returned
  \<open>cudaSuccess\<close>.
\<close>

datatype event =
  Pread nat nat nat
  | Push nat nat
  | Notify_one
  | Notify_all
  | Memcpy nat nat

record memory =
  target_mem :: "byte list"
  staging :: alloc
  events :: "event list"

text \<open>
  \<open>pread(fd, buf, n, off)\<close> on a file of bytes \<open>f\<close> delivers the bytes at \<open>off, off + 1, ...\<close>,
  at most \<open>n\<close> and no more than the file has. \<open>blit buf pos bs\<close> is the buffer after the bytes
  \<open>bs\<close> have been stored from \<open>buf + pos\<close> on. A store past the end of \<open>buf\<close>, which in the
  source overruns the buffer, is cut off here: the properties of the destination's contents
  assume that it has room for the segment.
\<close>

definition pread :: "byte list \<Rightarrow> nat \<Rightarrow> nat \<Rightarrow> byte list" where
  "pread f off n = take n (drop off f)"

definition blit :: "byte list \<Rightarrow> nat \<Rightarrow> byte list \<Rightarrow> byte list" where
  "blit buf pos bs =
     map (\<lambda>k. if pos \<le> k \<and> k < pos + length bs then bs ! (k - pos) else buf ! k) [0..<length buf]"

subsection \<open>The parallel file read (lines 40 to 68)\<close>

text \<open>
  Each of the \<open>STLOADER_THREADS\<close> threads reads one contiguous chunk with a single \<open>pread\<close>
  and shares nothing with the others but the flag \<open>read_failed\<close>, so a thread is one atomic
  step. \<open>readers\<close> records which threads have run.
\<close>

record rstate =
  rbuffer :: "byte list"
  read_failed :: bool
  readers :: "bool list"
  rtrace :: "event list"

definition read_thread :: "env \<Rightarrow> nat \<Rightarrow> nat \<Rightarrow> nat \<Rightarrow> nat \<Rightarrow> rstate \<Rightarrow> rstate" where
  "read_thread e offset sz chunk_size i s =
     (if i < length (readers s) \<and> \<not> readers s ! i then
        (let s1 = s\<lparr>readers := (readers s)[i := True]\<rparr>;
             start = i * chunk_size;
             end_pos = min (start + chunk_size) sz
         in if start \<ge> end_pos then s1
            else
              (case file_bytes e of
                 None \<Rightarrow> s1\<lparr>read_failed := True\<rparr>
               | Some f \<Rightarrow>
                   (let got = pread f (offset + start) (end_pos - start)
                    in s1\<lparr>rbuffer := blit (rbuffer s1) start got,
                          read_failed := (read_failed s1 \<or> length got \<noteq> end_pos - start),
                          rtrace := rtrace s1 @ [Pread (offset + start) (end_pos - start) start]\<rparr>)))
      else s)"

subsection \<open>The block pipeline (lines 72 to 265)\<close>

text \<open>
  A read worker is about to open the file (\<open>L_open pos_a\<close>), at the head of its loop
  (\<open>L_loop pos_a\<close>), or has returned (\<open>L_done\<close>). A copy worker is in its loop or has left
  it. The calling thread waits for the read workers, then for the copy workers.
\<close>

datatype lworker = L_open nat | L_loop nat | L_done

datatype cworker = C_run | C_done

datatype mthread = M_join_loaders | M_join_copiers | M_done

record pstate =
  load_buffer :: "byte list"
  cuda_buffer :: "byte list option"
  load_failed :: bool
  done_loading :: bool
  dq :: "(nat \<times> nat) list"
  loaders :: "lworker list"
  copiers :: "cworker list"
  main_thread :: mthread
  trace :: "event list"

text \<open>
  The lambda handed to \<open>threads.emplace_back\<close> (lines 193 to 233), one step at a time: the
  \<open>fopen\<close>, or one turn of the \<open>while\<close> loop, with the test of \<open>load_failed\<close> at its head.
  The model follows the \<open>__linux__\<close> branch (\<open>pread\<close>; the result of the \<open>fseek\<close> after it
  is not used); the other branch seeks and reads through the worker's own handle to the same
  effect. A short read stores the bytes it got, sets \<open>load_failed\<close> and ends the worker. The
  \<open>printf\<close>s and the counters \<open>blocks_processed\<close> are logging and are left out. The result is
  the worker's next state and the shared state.
\<close>

definition load_thread ::
  "env \<Rightarrow> config \<Rightarrow> nat \<Rightarrow> nat \<Rightarrow> lworker \<Rightarrow> pstate \<Rightarrow> lworker \<times> pstate" where
  "load_thread e cfg offset sz w s =
     (case w of
        L_done \<Rightarrow> (L_done, s)
      | L_open pos_a \<Rightarrow>
          (case file_bytes e of
             None \<Rightarrow> (L_done, s\<lparr>load_failed := True\<rparr>)
           | Some f \<Rightarrow> (L_loop pos_a, s))
      | L_loop pos_a \<Rightarrow>
          (if pos_a < sz \<and> \<not> load_failed s then
             (let pos_b = (if pos_a + STLOADER_BLOCK_SIZE cfg > sz then sz
                           else pos_a + STLOADER_BLOCK_SIZE cfg);
                  got = pread (case file_bytes e of None \<Rightarrow> [] | Some f \<Rightarrow> f) (offset + pos_a) (pos_b - pos_a);
                  s1 = s\<lparr>load_buffer := blit (load_buffer s) pos_a got,
                         trace := trace s @ [Pread (offset + pos_a) (pos_b - pos_a) pos_a]\<rparr>
              in if length got \<noteq> pos_b - pos_a then (L_done, s1\<lparr>load_failed := True\<rparr>)
                 else (L_loop (pos_a + STLOADER_THREADS cfg * STLOADER_BLOCK_SIZE cfg),
                       s1\<lparr>dq := dq s1 @ [(pos_a, pos_b)],
                          trace := trace s1 @ [Push pos_a pos_b, Notify_one]\<rparr>))
           else (L_done, s)))"

text \<open>
  The lambda \<open>load_worker\<close> (lines 82 to 124), which the source defines and never calls. It
  wakes every waiter after a push where the spawned lambda wakes one.
\<close>

definition load_worker ::
  "env \<Rightarrow> config \<Rightarrow> nat \<Rightarrow> nat \<Rightarrow> lworker \<Rightarrow> pstate \<Rightarrow> lworker \<times> pstate" where
  "load_worker e cfg offset sz w s =
     (case w of
        L_done \<Rightarrow> (L_done, s)
      | L_open pos_a \<Rightarrow>
          (case file_bytes e of
             None \<Rightarrow> (L_done, s\<lparr>load_failed := True\<rparr>)
           | Some f \<Rightarrow> (L_loop pos_a, s))
      | L_loop pos_a \<Rightarrow>
          (if pos_a < sz \<and> \<not> load_failed s then
             (let pos_b = (if pos_a + STLOADER_BLOCK_SIZE cfg > sz then sz
                           else pos_a + STLOADER_BLOCK_SIZE cfg);
                  got = pread (case file_bytes e of None \<Rightarrow> [] | Some f \<Rightarrow> f) (offset + pos_a) (pos_b - pos_a);
                  s1 = s\<lparr>load_buffer := blit (load_buffer s) pos_a got,
                         trace := trace s @ [Pread (offset + pos_a) (pos_b - pos_a) pos_a]\<rparr>
              in if length got \<noteq> pos_b - pos_a then (L_done, s1\<lparr>load_failed := True\<rparr>)
                 else (L_loop (pos_a + STLOADER_THREADS cfg * STLOADER_BLOCK_SIZE cfg),
                       s1\<lparr>dq := dq s1 @ [(pos_a, pos_b)],
                          trace := trace s1 @ [Push pos_a pos_b, Notify_all]\<rparr>))
           else (L_done, s)))"

text \<open>
  One turn of the loop of \<open>copy_worker\<close> (lines 131 to 186). In \<open>cv.wait\<close> the worker stays
  where it is while the queue is empty and neither flag is set. Otherwise it leaves on
  \<open>load_failed\<close>, leaves on an empty queue once \<open>done_loading\<close> is set, or pops the front
  block and copies it from \<open>load_buffer\<close> to \<open>cuda_buffer\<close>; a failed copy sets \<open>load_failed\<close>
  and ends the loop. The worker synchronises its stream before it returns, so a copy is
  modelled as done when it is issued; pop and copy are one step, since the block copied was
  read in full before it was pushed and no thread writes it afterwards.
\<close>

definition copy_worker :: "env \<Rightarrow> cworker \<Rightarrow> pstate \<Rightarrow> cworker \<times> pstate" where
  "copy_worker e w s =
     (case w of
        C_done \<Rightarrow> (C_done, s)
      | C_run \<Rightarrow>
          (if dq s = [] \<and> \<not> load_failed s \<and> \<not> done_loading s then (C_run, s)
           else if load_failed s then (C_done, s)
           else
             (case dq s of
                [] \<Rightarrow> (if done_loading s then (C_done, s) else (C_run, s))
              | (pos_a, pos_b) # rest \<Rightarrow>
                  (let s1 = s\<lparr>dq := rest\<rparr>
                   in if memcpy_ok e pos_a pos_b then
                        (C_run,
                         s1\<lparr>cuda_buffer :=
                               map_option
                                 (\<lambda>cb. blit cb pos_a (take (pos_b - pos_a) (drop pos_a (load_buffer s1))))
                                 (cuda_buffer s1),
                             trace := trace s1 @ [Memcpy pos_a pos_b]\<rparr>)
                      else (C_done, s1\<lparr>load_failed := True\<rparr>)))))"

text \<open>
  The calling thread (lines 244 to 265): once every read worker has returned it sets
  \<open>done_loading\<close> and wakes all waiters; once every copy worker has returned it goes on.
\<close>

definition main_step :: "pstate \<Rightarrow> pstate" where
  "main_step s =
     (case main_thread s of
        M_join_loaders \<Rightarrow>
          (if list_all (\<lambda>w. w = L_done) (loaders s)
           then s\<lparr>done_loading := True, trace := trace s @ [Notify_all], main_thread := M_join_copiers\<rparr>
           else s)
      | M_join_copiers \<Rightarrow>
          (if list_all (\<lambda>w. w = C_done) (copiers s) then s\<lparr>main_thread := M_done\<rparr> else s)
      | M_done \<Rightarrow> s)"

text \<open>
  A schedule names, step after step, the thread that moves. A thread that does not exist,
  has returned or is waiting leaves the state as it is. Threads exist from the start: one
  that the source creates later is one that the schedule moves later.
\<close>

datatype tid = Loader nat | Copier nat | Main

definition step :: "env \<Rightarrow> config \<Rightarrow> nat \<Rightarrow> nat \<Rightarrow> tid \<Rightarrow> pstate \<Rightarrow> pstate" where
  "step e cfg offset sz t s =
     (case t of
        Loader i \<Rightarrow>
          (if i < length (loaders s) then
             (let (w, s1) = load_thread e cfg offset sz (loaders s ! i) s
              in s1\<lparr>loaders := (loaders s1)[i := w]\<rparr>)
           else s)
      | Copier j \<Rightarrow>
          (if j < length (copiers s) then
             (let (w, s1) = copy_worker e (copiers s ! j) s
              in s1\<lparr>copiers := (copiers s1)[j := w]\<rparr>)
           else s)
      | Main \<Rightarrow> main_step s)"

text \<open>
  The threads the call creates (lines 191 to 242): read worker \<open>i\<close> starts at
  \<open>i * STLOADER_BLOCK_SIZE\<close> and exists while \<open>i < STLOADER_THREADS\<close> and
  \<open>i * STLOADER_BLOCK_SIZE < size\<close>; the copy workers exist when \<open>cuda_buffer\<close> is not null.
\<close>

definition spawn :: "config \<Rightarrow> nat \<Rightarrow> byte list \<Rightarrow> byte list option \<Rightarrow> event list \<Rightarrow> pstate" where
  "spawn cfg sz lb cb tr =
     \<lparr>load_buffer = lb, cuda_buffer = cb, load_failed = False, done_loading = False, dq = [],
      loaders = map (\<lambda>i. L_open (i * STLOADER_BLOCK_SIZE cfg))
                  (takeWhile (\<lambda>i. i * STLOADER_BLOCK_SIZE cfg < sz) [0..<STLOADER_THREADS cfg]),
      copiers = (case cb of None \<Rightarrow> [] | Some b \<Rightarrow> replicate (STLOADER_COPY_THREADS cfg) C_run),
      main_thread = M_join_loaders, trace = tr\<rparr>"

subsection \<open>The whole call\<close>

text \<open>
  \<open>stloader_read\<close> under a schedule of the chunk readers and a schedule of the pipeline.
  With a CPU destination \<open>load_buffer\<close> is the destination's storage and \<open>cuda_buffer\<close> is
  null; otherwise \<open>load_buffer\<close> is allocated and \<open>cuda_buffer\<close> is the destination's storage.
  \<open>STLOADER_THREADS = 0\<close> divides by zero in \<open>chunk_size\<close>. Each \<open>join\<close> waits: under a
  schedule that ends before the threads have, the call is \<open>Blocked\<close>. A \<open>TORCH_CHECK\<close> that
  fails throws at once, past the \<open>free\<close> of line 282.
\<close>

definition observe :: "bool \<Rightarrow> alloc \<Rightarrow> byte list \<Rightarrow> byte list option \<Rightarrow> event list \<Rightarrow> memory" where
  "observe cpu st lb cb tr =
     \<lparr>target_mem = (if cpu then lb else (case cb of None \<Rightarrow> [] | Some b \<Rightarrow> b)),
      staging = st, events = tr\<rparr>"

definition stloader_read ::
  "env \<Rightarrow> config \<Rightarrow> nat \<Rightarrow> nat \<Rightarrow> target \<Rightarrow> nat list \<Rightarrow> tid list \<Rightarrow> memory outcome" where
  "stloader_read e cfg offset sz tgt sched1 sched2 =
     (if \<not> target_cpu tgt \<and> \<not> malloc_ok e
      then Raised AllocError \<lparr>target_mem = tdata tgt, staging = Unallocated, events = []\<rparr>
      else if STLOADER_THREADS cfg = 0 then Undefined
      else
        (let cpu = target_cpu tgt;
             lb0 = (if cpu then tdata tgt else map (malloc_fill e) [0..<sz]);
             cb0 = (if cpu then None else Some (tdata tgt));
             st0 = (if cpu then Unallocated else Live);
             num_read_threads = STLOADER_THREADS cfg;
             chunk_size = (sz + num_read_threads - 1) div num_read_threads;
             r = fold (read_thread e offset sz chunk_size) sched1
                   \<lparr>rbuffer = lb0, read_failed = False,
                    readers = replicate num_read_threads False, rtrace = []\<rparr>
         in if \<not> list_all (\<lambda>b. b) (readers r) then Blocked
            else if read_failed r then Raised ReadFailed (observe cpu st0 (rbuffer r) cb0 (rtrace r))
            else
              (let s = fold (step e cfg offset sz) sched2 (spawn cfg sz (rbuffer r) cb0 (rtrace r))
               in if main_thread s \<noteq> M_done then Blocked
                  else if load_failed s
                  then Raised IOError (observe cpu st0 (load_buffer s) (cuda_buffer s) (trace s))
                  else Returned
                         (observe cpu (if cpu then Unallocated else Freed)
                            (load_buffer s) (cuda_buffer s) (trace s)))))"

subsection \<open>Vocabulary of the loader's properties\<close>

text \<open>How many events of a trace read the file byte \<open>j\<close>, push a range that holds the buffer
  position \<open>k\<close>, or transfer a range that holds \<open>k\<close>.\<close>

fun reads_byte :: "nat \<Rightarrow> event \<Rightarrow> bool" where
  "reads_byte j (Pread off n pos) = (off \<le> j \<and> j < off + n)"
| "reads_byte j _ = False"

fun pushes_pos :: "nat \<Rightarrow> event \<Rightarrow> bool" where
  "pushes_pos k (Push a b) = (a \<le> k \<and> k < b)"
| "pushes_pos k _ = False"

fun copies_pos :: "nat \<Rightarrow> event \<Rightarrow> bool" where
  "copies_pos k (Memcpy a b) = (a \<le> k \<and> k < b)"
| "copies_pos k _ = False"

definition count_reads :: "event list \<Rightarrow> nat \<Rightarrow> nat" where
  "count_reads tr j = length (filter (reads_byte j) tr)"

definition count_pushes :: "event list \<Rightarrow> nat \<Rightarrow> nat" where
  "count_pushes tr k = length (filter (pushes_pos k) tr)"

definition count_copies :: "event list \<Rightarrow> nat \<Rightarrow> nat" where
  "count_copies tr k = length (filter (copies_pos k) tr)"

text \<open>The ranges a trace pushes onto the queue, in order.\<close>

fun pushed :: "event list \<Rightarrow> (nat \<times> nat) list" where
  "pushed [] = []"
| "pushed (Push a b # tr) = (a, b) # pushed tr"
| "pushed (_ # tr) = pushed tr"

text \<open>
  \<open>partition_of rs n\<close>: the ranges \<open>rs\<close> partition \<open>[0, n)\<close>. Their union is \<open>[0, n)\<close>, two
  ranges at different places of the list share no position, and no range is empty.
  \<open>queued q k\<close> counts the ranges of \<open>q\<close> that hold the position \<open>k\<close>.
\<close>

definition partition_of :: "(nat \<times> nat) list \<Rightarrow> nat \<Rightarrow> bool" where
  "partition_of rs sz =
     ((\<Union>(a, b) \<in> set rs. {a..<b}) = {0..<sz} \<and>
      (\<forall>i<length rs. \<forall>j<length rs. i \<noteq> j \<longrightarrow>
         {fst (rs ! i)..<snd (rs ! i)} \<inter> {fst (rs ! j)..<snd (rs ! j)} = {}) \<and>
      (\<forall>(a, b) \<in> set rs. a < b))"

definition queued :: "(nat \<times> nat) list \<Rightarrow> nat \<Rightarrow> nat" where
  "queued q k = length (filter (\<lambda>(a, b). a \<le> k \<and> k < b) q)"

text \<open>The bytes of the file (none when it cannot be opened), and a trace of reads only.\<close>

definition file_of :: "env \<Rightarrow> byte list" where
  "file_of e = (case file_bytes e of None \<Rightarrow> [] | Some f \<Rightarrow> f)"

definition only_reads :: "event list \<Rightarrow> bool" where
  "only_reads tr = (\<forall>ev \<in> set tr. \<exists>a b c. ev = Pread a b c)"

text \<open>
  Comparing the two read workers: \<open>all_notify\<close> forgets which kind a notification is,
  \<open>iterate_worker body n\<close> runs a worker alone for \<open>n\<close> steps, and \<open>same_but_notify tr0 s1 s2\<close>
  says that two shared states agree in every field but the trace, where past the common
  prefix \<open>tr0\<close> the first has \<open>Notify_all\<close> wherever the second has a notification.
\<close>

definition all_notify :: "event \<Rightarrow> event" where
  "all_notify ev = (if ev = Notify_one then Notify_all else ev)"

fun iterate_worker ::
  "(lworker \<Rightarrow> pstate \<Rightarrow> lworker \<times> pstate) \<Rightarrow> nat \<Rightarrow> lworker \<Rightarrow> pstate \<Rightarrow> lworker \<times> pstate" where
  "iterate_worker body 0 w s = (w, s)"
| "iterate_worker body (Suc n) w s = (case body w s of (w', s') \<Rightarrow> iterate_worker body n w' s')"

definition same_but_notify :: "event list \<Rightarrow> pstate \<Rightarrow> pstate \<Rightarrow> bool" where
  "same_but_notify tr0 s1 s2 =
     (load_buffer s1 = load_buffer s2 \<and> cuda_buffer s1 = cuda_buffer s2 \<and>
      load_failed s1 = load_failed s2 \<and> done_loading s1 = done_loading s2 \<and> dq s1 = dq s2 \<and>
      loaders s1 = loaders s2 \<and> copiers s1 = copiers s2 \<and> main_thread s1 = main_thread s2 \<and>
      (\<exists>new. trace s2 = tr0 @ new \<and> trace s1 = tr0 @ map all_notify new))"

subsection \<open>Names for the parts of a call\<close>

text \<open>
  The end of the block that starts at \<open>pos_a\<close>, the bytes a copy moves, the chunk size, the two
  buffers as the call sets them up, and the states after the chunk readers and after the
  pipeline: the subterms of \<open>load_thread\<close>, \<open>copy_worker\<close> and \<open>stloader_read\<close>, named.
\<close>

definition block_end :: "config \<Rightarrow> nat \<Rightarrow> nat \<Rightarrow> nat" where
  "block_end cfg sz pos_a =
     (if pos_a + STLOADER_BLOCK_SIZE cfg > sz then sz else pos_a + STLOADER_BLOCK_SIZE cfg)"

definition copy_bytes :: "pstate \<Rightarrow> nat \<Rightarrow> nat \<Rightarrow> byte list option" where
  "copy_bytes s a b =
     map_option (\<lambda>cb. blit cb a (take (b - a) (drop a (load_buffer s)))) (cuda_buffer s)"

definition chunk_size_of :: "config \<Rightarrow> nat \<Rightarrow> nat" where
  "chunk_size_of cfg sz = (sz + STLOADER_THREADS cfg - 1) div STLOADER_THREADS cfg"

definition load_buffer0 :: "env \<Rightarrow> nat \<Rightarrow> target \<Rightarrow> byte list" where
  "load_buffer0 e sz tgt = (if target_cpu tgt then tdata tgt else map (malloc_fill e) [0..<sz])"

definition cuda_buffer0 :: "target \<Rightarrow> byte list option" where
  "cuda_buffer0 tgt = (if target_cpu tgt then None else Some (tdata tgt))"

definition phase1 :: "env \<Rightarrow> config \<Rightarrow> nat \<Rightarrow> nat \<Rightarrow> target \<Rightarrow> nat list \<Rightarrow> rstate" where
  "phase1 e cfg offset sz tgt sched1 =
     fold (read_thread e offset sz (chunk_size_of cfg sz)) sched1
       \<lparr>rbuffer = load_buffer0 e sz tgt, read_failed = False,
        readers = replicate (STLOADER_THREADS cfg) False, rtrace = []\<rparr>"

definition phase2 ::
  "env \<Rightarrow> config \<Rightarrow> nat \<Rightarrow> nat \<Rightarrow> target \<Rightarrow> nat list \<Rightarrow> tid list \<Rightarrow> pstate" where
  "phase2 e cfg offset sz tgt sched1 sched2 =
     fold (step e cfg offset sz) sched2
       (spawn cfg sz (rbuffer (phase1 e cfg offset sz tgt sched1)) (cuda_buffer0 tgt)
          (rtrace (phase1 e cfg offset sz tgt sched1)))"

subsection \<open>Invariants of the chunk readers and of the pipeline\<close>

text \<open>
  The chunk of a position, and what holds after any number of chunk readers have run without
  failure: a position has been read once if its chunk's reader has run and not at all
  otherwise, and the buffer holds the file's byte wherever the reader has run.
\<close>

definition chunk_of :: "nat \<Rightarrow> nat \<Rightarrow> nat" where
  "chunk_of chunk_size k = k div chunk_size"

definition good_r :: "env \<Rightarrow> nat \<Rightarrow> nat \<Rightarrow> nat \<Rightarrow> nat \<Rightarrow> rstate \<Rightarrow> bool" where
  "good_r e offset sz chunk_size n s =
     (\<not> read_failed s \<and> length (readers s) = n \<and> only_reads (rtrace s) \<and>
      (\<forall>k < sz. count_reads (rtrace s) (offset + k) =
          (if readers s ! chunk_of chunk_size k then 1 else 0)) \<and>
      (sz \<le> length (rbuffer s) \<longrightarrow>
         (\<forall>k < sz. readers s ! chunk_of chunk_size k \<longrightarrow>
            offset + k < length (file_of e) \<and> rbuffer s ! k = file_of e ! (offset + k))))"

text \<open>
  The read worker that owns the block of a position, where that block starts, and where a
  worker stands. \<open>point_ok\<close>: while the owner has not passed the block of \<open>k\<close>, nothing has
  happened to \<open>k\<close>; afterwards \<open>k\<close> has been pushed once and is either in the queue once or
  copied once. \<open>aligned\<close>: worker \<open>j\<close> stands at the start of a block whose number is \<open>j\<close>
  modulo the number of workers.
\<close>

definition owner :: "config \<Rightarrow> nat \<Rightarrow> nat" where
  "owner cfg k = (k div STLOADER_BLOCK_SIZE cfg) mod STLOADER_THREADS cfg"

definition block_start :: "config \<Rightarrow> nat \<Rightarrow> nat" where
  "block_start cfg k = (k div STLOADER_BLOCK_SIZE cfg) * STLOADER_BLOCK_SIZE cfg"

fun wpos :: "lworker \<Rightarrow> nat option" where
  "wpos (L_open p) = Some p"
| "wpos (L_loop p) = Some p"
| "wpos L_done = None"

definition point_ok :: "config \<Rightarrow> pstate \<Rightarrow> nat \<Rightarrow> bool" where
  "point_ok cfg s k =
     (case wpos (loaders s ! owner cfg k) of
        Some p \<Rightarrow>
          (if p \<le> block_start cfg k
           then count_pushes (trace s) k = 0 \<and> queued (dq s) k = 0 \<and> count_copies (trace s) k = 0
           else count_pushes (trace s) k = 1 \<and> queued (dq s) k + count_copies (trace s) k = 1)
      | None \<Rightarrow> count_pushes (trace s) k = 1 \<and> queued (dq s) k + count_copies (trace s) k = 1)"

definition aligned :: "config \<Rightarrow> pstate \<Rightarrow> bool" where
  "aligned cfg s =
     (\<forall>j<length (loaders s). \<forall>p. wpos (loaders s ! j) = Some p \<longrightarrow>
        STLOADER_BLOCK_SIZE cfg dvd p \<and> (p div STLOADER_BLOCK_SIZE cfg) mod STLOADER_THREADS cfg = j)"

text \<open>
  The invariant of the pipeline while nothing has failed; \<open>tr0\<close> is the trace the pipeline
  starts with and \<open>nc\<close> the number of copy workers. Besides \<open>aligned\<close> and \<open>point_ok\<close>: each
  block read is followed by its push; only blocks are pushed; \<open>done_loading\<close> is set exactly
  when the calling thread has moved past the read workers, which have then all returned; a
  copy worker has returned only from an empty queue after \<open>done_loading\<close>; the calling thread
  is done only when the copy workers are.
\<close>

definition good_q :: "config \<Rightarrow> nat \<Rightarrow> nat \<Rightarrow> event list \<Rightarrow> nat \<Rightarrow> pstate \<Rightarrow> bool" where
  "good_q cfg offset sz tr0 nc s =
     (\<not> load_failed s \<and> aligned cfg s \<and>
      (\<forall>k < sz. owner cfg k < length (loaders s) \<and> point_ok cfg s k \<and>
         count_reads (trace s) (offset + k) = count_reads tr0 (offset + k) + count_pushes (trace s) k) \<and>
      (\<forall>(a, b) \<in> set (pushed (trace s)).
         a < sz \<and> STLOADER_BLOCK_SIZE cfg dvd a \<and> b = block_end cfg sz a) \<and>
      (done_loading s \<longleftrightarrow> main_thread s \<noteq> M_join_loaders) \<and>
      (done_loading s \<longrightarrow> (\<forall>j<length (loaders s). loaders s ! j = L_done)) \<and>
      ((\<exists>j<length (copiers s). copiers s ! j = C_done) \<longrightarrow> dq s = [] \<and> done_loading s) \<and>
      (main_thread s = M_done \<longrightarrow> (\<forall>j<length (copiers s). copiers s ! j = C_done)) \<and>
      length (copiers s) = nc \<and>
      (nc = 0 \<longrightarrow> (\<forall>k. count_copies (trace s) k = 0)))"

text \<open>
  The contents of the buffers: \<open>load_buffer\<close> holds the segment throughout the pipeline (the
  chunk readers have filled it), and \<open>cuda_buffer\<close> holds it wherever a copy has been made.
\<close>

definition good_b :: "env \<Rightarrow> nat \<Rightarrow> nat \<Rightarrow> pstate \<Rightarrow> bool" where
  "good_b e offset sz s =
     (sz \<le> length (load_buffer s) \<and>
      (\<forall>k < sz. offset + k < length (file_of e) \<and> load_buffer s ! k = file_of e ! (offset + k)) \<and>
      (\<forall>cb. cuda_buffer s = Some cb \<longrightarrow>
         sz \<le> length cb \<and>
         (\<forall>k < sz. 0 < count_copies (trace s) k \<longrightarrow> cb ! k = file_of e ! (offset + k))))"

text \<open>
  With a block size of zero and a segment that is not empty, the read workers never leave
  position 0 and the calling thread waits for them for ever.
\<close>

definition stuck :: "pstate \<Rightarrow> bool" where
  "stuck s = (\<not> load_failed s \<and> main_thread s = M_join_loaders \<and> loaders s \<noteq> [] \<and>
     (\<forall>j<length (loaders s). wpos (loaders s ! j) = Some 0))"

text \<open>
  For the existence of a returning schedule: the file can be opened and holds the segment
  and no copy fails (\<open>calm\<close>); nothing has failed and \<open>done_loading\<close> follows the calling thread
  (\<open>running\<close>); and a bound on the moves still to come (\<open>work_left\<close>).
\<close>

definition calm :: "env \<Rightarrow> nat \<Rightarrow> nat \<Rightarrow> bool" where
  "calm e offset sz =
     ((\<exists>f. file_bytes e = Some f) \<and> offset + sz \<le> length (file_of e) \<and> (\<forall>a b. memcpy_ok e a b))"

definition running :: "pstate \<Rightarrow> bool" where
  "running s = (\<not> load_failed s \<and> (done_loading s \<longleftrightarrow> main_thread s \<noteq> M_join_loaders))"

fun lweight :: "nat \<Rightarrow> lworker \<Rightarrow> nat" where
  "lweight sz (L_open p) = 2 * (sz - p) + 2"
| "lweight sz (L_loop p) = 2 * (sz - p) + 1"
| "lweight sz L_done = 0"

fun cweight :: "cworker \<Rightarrow> nat" where
  "cweight C_run = 1"
| "cweight C_done = 0"

fun mweight :: "mthread \<Rightarrow> nat" where
  "mweight M_join_loaders = 2"
| "mweight M_join_copiers = 1"
| "mweight M_done = 0"

definition work_left :: "nat \<Rightarrow> pstate \<Rightarrow> nat" where
  "work_left sz s =
     sum_list (map (lweight sz) (loaders s)) + length (dq s) +
     sum_list (map cweight (copiers s)) + mweight (main_thread s)"

subsection \<open>Example inputs\<close>

text \<open>
  A file of ten bytes and one truncated to six; two read workers, blocks of two bytes, two
  copy workers; a destination of seven bytes off the CPU and one on it; an order of the chunk
  readers and a schedule of the pipeline in which reads, copies and the calling thread
  interleave. Then the same configuration without copy workers, and one with four read
  workers for a segment of a single byte, shorter than one round of blocks.
\<close>

definition ex_env :: env where
  "ex_env = \<lparr>file_bytes = Some [1, 2, 3, 4, 5, 6, 7, 8, 9, 10], malloc_ok = True,
     malloc_fill = (\<lambda>i. 0xAA), memcpy_ok = (\<lambda>a b. True)\<rparr>"

definition ex_short_env :: env where
  "ex_short_env = \<lparr>file_bytes = Some [1, 2, 3, 4, 5, 6], malloc_ok = True,
     malloc_fill = (\<lambda>i. 0xAA), memcpy_ok = (\<lambda>a b. True)\<rparr>"

definition ex_cfg :: config where
  "ex_cfg = \<lparr>STLOADER_THREADS = 2, STLOADER_BLOCK_SIZE = 2, STLOADER_COPY_THREADS = 2\<rparr>"

definition ex_gpu :: target where
  "ex_gpu = \<lparr>target_cpu = False, tdata = [0, 0, 0, 0, 0, 0, 0]\<rparr>"

definition ex_cpu :: target where
  "ex_cpu = \<lparr>target_cpu = True, tdata = [0, 0, 0, 0, 0, 0, 0]\<rparr>"

definition ex_order :: "nat list" where
  "ex_order = [1, 0]"

definition ex_sched :: "tid list" where
  "ex_sched = [Loader 0, Loader 1, Loader 0, Copier 1, Loader 0, Loader 1, Loader 1, Loader 0,
     Main, Copier 0, Copier 1, Copier 1, Copier 0, Main]"

definition ex_no_copier_cfg :: config where
  "ex_no_copier_cfg = \<lparr>STLOADER_THREADS = 2, STLOADER_BLOCK_SIZE = 2, STLOADER_COPY_THREADS = 0\<rparr>"

definition ex_wide_cfg :: config where
  "ex_wide_cfg = \<lparr>STLOADER_THREADS = 4, STLOADER_BLOCK_SIZE = 2, STLOADER_COPY_THREADS = 1\<rparr>"

definition ex_wide_order :: "nat list" where
  "ex_wide_order = [0, 1, 2, 3]"

definition ex_wide_sched :: "tid list" where
  "ex_wide_sched = [Loader 0, Loader 1, Loader 0, Loader 0, Main, Copier 0, Copier 0, Main]"

section \<open>Properties of the row remapper\<close>

subsection \<open>The dense loops\<close>

text \<open>
  What the inner loop leaves in the storage: the cells from \<open>a\<close> on receive
  \<open>temp[idx[c]], temp[idx[c + 1]], ...\<close>; every other cell keeps its value.
\<close>

lemma remap_cols_spec:
  assumes "cols \<le> length idx" and "\<forall>j<cols. unat (idx ! j) < length temp"
    and "a + (cols - c) \<le> length d"
  shows "\<exists>d'. remap_cols temp idx cols c a d = Some (a + (cols - c), d') \<and> length d' = length d \<and>
    (\<forall>k<length d. d' ! k =
       (if a \<le> k \<and> k < a + (cols - c) then temp ! unat (idx ! (c + (k - a))) else d ! k))"
  using assms
proof (induction temp idx cols c a d rule: remap_cols.induct)
  case (1 temp idx cols c a d)
  show ?case
  proof (cases "c < cols")
    case True
    then have ok: "c < length idx \<and> unat (idx ! c) < length temp \<and> a < length d"
      using "1.prems" by auto
    let ?d1 = "d[a := temp ! unat (idx ! c)]"
    have len: "a + 1 + (cols - (c + 1)) \<le> length ?d1"
      using True "1.prems" by simp
    from "1.IH"[OF True ok "1.prems"(1,2) len] obtain d' where
      r: "remap_cols temp idx cols (c + 1) (a + 1) ?d1 = Some (a + 1 + (cols - (c + 1)), d')" and
      l: "length d' = length ?d1" and
      v: "\<forall>k<length ?d1. d' ! k =
           (if a + 1 \<le> k \<and> k < a + 1 + (cols - (c + 1))
            then temp ! unat (idx ! (c + 1 + (k - (a + 1)))) else ?d1 ! k)"
      by blast
    have e: "a + 1 + (cols - (c + 1)) = a + (cols - c)" using True by simp
    have "remap_cols temp idx cols c a d = Some (a + (cols - c), d')"
      using True ok r e by (subst remap_cols.simps) simp
    moreover have "length d' = length d" using l by simp
    moreover have "\<forall>k<length d. d' ! k =
       (if a \<le> k \<and> k < a + (cols - c) then temp ! unat (idx ! (c + (k - a))) else d ! k)"
    proof (intro allI impI)
      fix k assume k: "k < length d"
      show "d' ! k = (if a \<le> k \<and> k < a + (cols - c) then temp ! unat (idx ! (c + (k - a))) else d ! k)"
      proof (cases "k = a")
        case True
        have "a < a + (cols - c)" using \<open>c < cols\<close> by simp
        then show ?thesis using v k True by auto
      next
        case False
        have "c + 1 + (k - (a + 1)) = c + (k - a)" if "a + 1 \<le> k" using that by simp
        then show ?thesis using v k False e by auto
      qed
    qed
    ultimately show ?thesis by blast
  next
    case False
    then show ?thesis by (subst remap_cols.simps) auto
  qed
qed

text \<open>
  What the row loop leaves: every row from \<open>r\<close> on is gathered from the same row of the
  storage the loop started with; the rows before \<open>r\<close> are not touched.
\<close>

lemma remap_rows_spec:
  assumes "cols \<le> length idx" and "\<forall>j<cols. unat (idx ! j) < cols"
    and "length d = rows * cols" and "a = r * cols" and "r \<le> rows"
  shows "\<exists>d'. remap_rows idx rows cols r a d = Some d' \<and> length d' = length d \<and>
    (\<forall>k<length d. d' ! k =
       (if a \<le> k then d ! ((k div cols) * cols + unat (idx ! (k mod cols))) else d ! k))"
  using assms
proof (induction idx rows cols r a d rule: remap_rows.induct)
  case (1 idx rows cols r a d)
  show ?case
  proof (cases "r < rows")
    case True
    have "(r + 1) * cols \<le> rows * cols" using True by (intro mult_le_mono1) simp
    then have fit: "a + cols \<le> length d" using "1.prems" by simp
    let ?temp = "take cols (drop a d)"
    have lt: "length ?temp = cols" using fit by simp
    have "\<forall>j<cols. unat (idx ! j) < length ?temp" using "1.prems"(2) lt by simp
    from remap_cols_spec[OF "1.prems"(1) this, of a 0 d] fit obtain d1 where
      c: "remap_cols ?temp idx cols 0 a d = Some (a + cols, d1)" and l1: "length d1 = length d" and
      v1: "\<forall>k<length d. d1 ! k = (if a \<le> k \<and> k < a + cols then ?temp ! unat (idx ! (k - a)) else d ! k)"
      by auto
    have "\<exists>d'. remap_rows idx rows cols (r + 1) (a + cols) d1 = Some d' \<and> length d' = length d1 \<and>
      (\<forall>k<length d1. d' ! k =
         (if a + cols \<le> k then d1 ! ((k div cols) * cols + unat (idx ! (k mod cols))) else d1 ! k))"
      using "1.IH"[OF True fit c refl "1.prems"(1,2)] l1 "1.prems"(3,4) True by simp
    then obtain d' where
      r: "remap_rows idx rows cols (r + 1) (a + cols) d1 = Some d'" and l: "length d' = length d1" and
      v: "\<forall>k<length d1. d' ! k =
         (if a + cols \<le> k then d1 ! ((k div cols) * cols + unat (idx ! (k mod cols))) else d1 ! k)"
      by blast
    have "remap_rows idx rows cols r a d = Some d'"
      using True fit c r by (subst remap_rows.simps) simp
    moreover have "length d' = length d" using l l1 by simp
    moreover have "\<forall>k<length d. d' ! k =
       (if a \<le> k then d ! ((k div cols) * cols + unat (idx ! (k mod cols))) else d ! k)"
    proof (intro allI impI)
      fix k assume k: "k < length d"
      have cpos: "0 < cols" using k "1.prems"(3) by (cases cols) auto
      consider "k < a" | "a \<le> k" "k < a + cols" | "a + cols \<le> k" by linarith
      then show "d' ! k = (if a \<le> k then d ! ((k div cols) * cols + unat (idx ! (k mod cols))) else d ! k)"
      proof cases
        case 1
        then show ?thesis using v v1 k l1 by simp
      next
        case 2
        have kd: "k div cols = r"
          by (rule div_nat_eqI) (use 2 "1.prems"(4) in \<open>simp_all add: mult.commute\<close>)
        have km: "k mod cols = k - a" using kd "1.prems"(4)
          by (simp flip: minus_div_mult_eq_mod)
        have "unat (idx ! (k - a)) < cols" using "1.prems"(2) 2 by simp
        then have "?temp ! unat (idx ! (k - a)) = d ! (a + unat (idx ! (k - a)))"
          using fit by simp
        then show ?thesis using v v1 k l1 2 kd km "1.prems"(4) by simp
      next
        case 3
        let ?s = "(k div cols) * cols + unat (idx ! (k mod cols))"
        have "unat (idx ! (k mod cols)) < cols" using "1.prems"(2) cpos by simp
        have "(r + 1) * cols \<le> k" using 3 "1.prems"(4) by simp
        then have "r + 1 \<le> k div cols" using cpos
          by (simp only: less_eq_div_iff_mult_less_eq)
        then have "(r + 1) * cols \<le> (k div cols) * cols" by (intro mult_le_mono1)
        then have ge: "a + cols \<le> ?s" using "1.prems"(4) by simp
        have "k div cols < rows" using k "1.prems"(3) cpos
          by (simp add: less_mult_imp_div_less)
        then have "(k div cols + 1) * cols \<le> rows * cols" by (intro mult_le_mono1) simp
        then have lt: "?s < length d" using \<open>unat (idx ! (k mod cols)) < cols\<close> "1.prems"(3) by simp
        show ?thesis using v v1 k l1 3 ge lt by simp
      qed
    qed
    ultimately show ?thesis by blast
  next
    case False
    then have "r = rows" using "1.prems" by simp
    then show ?thesis using "1.prems" by (subst remap_rows.simps) simp
  qed
qed

subsection \<open>Nibbles of a 32-bit word\<close>

lemma mask4: "(15::u32) = mask 4" by (simp add: mask_eq_exp_minus_1)
lemma mask3: "(7::u32) = mask 3" by (simp add: mask_eq_exp_minus_1)

lemma unat_and7_times4: "unat (((i::u32) AND 7) * 4) = (unat i mod 8) * 4"
proof -
  have a: "unat (i AND 7) = unat i mod 8"
    by (simp add: mask3 unat_mod take_bit_eq_mod flip: take_bit_eq_mask)
  have "unat ((i AND 7) * 4) = unat (i AND 7) * unat (4::u32) mod 2 ^ 32"
    by (simp add: unat_word_ariths)
  also have "\<dots> = (unat i mod 8) * 4" using a by simp
  finally show ?thesis .
qed

lemma unat_div8: "unat ((i::u32) div 8) = unat i div 8"
  by (simp add: unat_div)

lemma nibble_OR_push:
  "b < 8 \<Longrightarrow> b' < 8 \<Longrightarrow>
   nibble b (rv OR push_bit (b' * 4) (x AND 0x0f)) = (if b = b' then nibble b rv OR (x AND 0x0f) else nibble b rv)"
  apply (rule bit_word_eqI)
  apply (auto simp add: nibble_def bit_simps mask4)
  done

lemma nibble_0: "nibble n 0 = 0"
  by (simp add: nibble_def)

lemma bit_nibble: "bit (nibble n x) j \<longleftrightarrow> j < 4 \<and> bit x (n * 4 + j)"
  by (auto simp add: nibble_def bit_simps mask4)

lemma nibbles_eqI:
  assumes "\<And>n. n < 8 \<Longrightarrow> nibble n x = nibble n y"
  shows "x = y"
proof (rule bit_word_eqI)
  fix m assume m: "m < LENGTH(32)"
  have d: "m div 4 < 8" using m by simp
  have "bit x m = bit (nibble (m div 4) x) (m mod 4)"
    by (simp add: bit_nibble)
  also have "\<dots> = bit (nibble (m div 4) y) (m mod 4)"
    using assms[OF d] by simp
  also have "\<dots> = bit y m"
    by (simp add: bit_nibble)
  finally show "bit x m = bit y m" .
qed

subsection \<open>The packed loops\<close>

lemma remap_nibbles_spec:
  assumes "c + (8 - b) \<le> length idx"
    and "\<forall>j<length idx. unat (idx ! j) div 8 < length temp"
    and "b \<le> 8"
  shows "\<exists>rv'. remap_nibbles temp idx b c rv = Some (c + (8 - b), rv') \<and>
    (\<forall>n<8. nibble n rv' =
       (if b \<le> n then nibble n rv OR src_nibble temp (idx ! (c + (n - b))) else nibble n rv))"
  using assms
proof (induction temp idx b c rv rule: remap_nibbles.induct)
  case (1 temp idx b c rv)
  show ?case
  proof (cases "b < 8")
    case True
    let ?i = "idx ! c"
    let ?v = "drop_bit (unat ((?i AND 7) * 4)) (temp ! unat (?i div 8)) AND 0x0f"
    let ?rv1 = "rv OR push_bit (b * 4) ?v"
    have cl: "c < length idx" using True "1.prems"(1) by simp
    then have ok: "c < length idx \<and> unat (?i div 8) < length temp"
      using "1.prems"(2) by (simp add: unat_div8)
    have v: "?v = src_nibble temp ?i"
      by (simp add: src_nibble_def nibble_def unat_and7_times4 unat_div8)
    have p1: "c + 1 + (8 - (b + 1)) \<le> length idx" using True "1.prems"(1) by simp
    have p3: "b + 1 \<le> 8" using True by simp
    from "1.IH"[OF True ok refl refl p1 "1.prems"(2) p3] obtain rv' where
      r: "remap_nibbles temp idx (b + 1) (c + 1) ?rv1 = Some (c + 1 + (8 - (b + 1)), rv')" and
      n: "\<forall>n<8. nibble n rv' =
         (if b + 1 \<le> n then nibble n ?rv1 OR src_nibble temp (idx ! (c + 1 + (n - (b + 1))))
          else nibble n ?rv1)"
      by blast
    have e: "c + 1 + (8 - (b + 1)) = c + (8 - b)" using True by simp
    have "remap_nibbles temp idx b c rv = Some (c + (8 - b), rv')"
      using True ok r e by (subst remap_nibbles.simps) (simp add: Let_def)
    moreover have "\<forall>n<8. nibble n rv' =
       (if b \<le> n then nibble n rv OR src_nibble temp (idx ! (c + (n - b))) else nibble n rv)"
    proof (intro allI impI)
      fix n :: nat assume n8: "n < 8"
      have nr: "nibble n ?rv1 = (if n = b then nibble n rv OR ?v else nibble n rv)"
        using nibble_OR_push[OF n8 True, of rv "drop_bit (unat ((?i AND 7) * 4)) (temp ! unat (?i div 8))"]
        by simp
      consider "n < b" | "n = b" | "b < n" by linarith
      then show "nibble n rv' =
        (if b \<le> n then nibble n rv OR src_nibble temp (idx ! (c + (n - b))) else nibble n rv)"
      proof cases
        case 1
        then show ?thesis using n n8 nr by simp
      next
        case 2
        then show ?thesis using n n8 nr v by simp
      next
        case 3
        then have "c + 1 + (n - (b + 1)) = c + (n - b)" by simp
        then show ?thesis using n n8 nr 3 by simp
      qed
    qed
    ultimately show ?thesis by blast
  next
    case False
    then have "b = 8" using "1.prems"(3) by simp
    then show ?thesis by (subst remap_nibbles.simps) simp
  qed
qed

lemma remap_words_spec:
  assumes "cols = 8 * wc" and "c = 8 * w" and "w \<le> wc" and "cols \<le> length idx"
    and "\<forall>j<length idx. unat (idx ! j) div 8 < length temp"
    and "a + (wc - w) \<le> length d"
  shows "\<exists>d'. remap_words temp idx cols c a d = Some (a + (wc - w), d') \<and> length d' = length d \<and>
    (\<forall>k<length d.
       if a \<le> k \<and> k < a + (wc - w)
       then \<forall>n<8. nibble n (d' ! k) = src_nibble temp (idx ! (8 * (w + (k - a)) + n))
       else d' ! k = d ! k)"
  using assms
proof (induction temp idx cols c a d arbitrary: w rule: remap_words.induct)
  case (1 temp idx cols c a d)
  show ?case
  proof (cases "c < cols")
    case True
    then have wlt: "w < wc" using "1.prems" by simp
    then have "c + (8 - 0) \<le> length idx" using "1.prems" by simp
    from remap_nibbles_spec[OF this "1.prems"(5), of 0] obtain rv where
      rn: "remap_nibbles temp idx 0 c 0 = Some (c + 8, rv)" and
      nv: "\<forall>n<8. nibble n rv = src_nibble temp (idx ! (c + n))"
      by (auto simp add: nibble_0)
    have al: "a < length d" using wlt "1.prems"(6) by simp
    let ?d1 = "d[a := rv]"
    have p2: "c + 8 = 8 * (w + 1)" using "1.prems"(2) by simp
    have p3: "w + 1 \<le> wc" using wlt by simp
    have p6: "a + 1 + (wc - (w + 1)) \<le> length ?d1" using wlt "1.prems"(6) by simp
    from "1.IH"[OF True rn refl al "1.prems"(1) p2 p3 "1.prems"(4,5) p6] obtain d' where
      r: "remap_words temp idx cols (c + 8) (a + 1) ?d1 = Some (a + 1 + (wc - (w + 1)), d')" and
      l: "length d' = length ?d1" and
      v: "\<forall>k<length ?d1.
            if a + 1 \<le> k \<and> k < a + 1 + (wc - (w + 1))
            then \<forall>n<8. nibble n (d' ! k) = src_nibble temp (idx ! (8 * (w + 1 + (k - (a + 1))) + n))
            else d' ! k = ?d1 ! k"
      by blast
    have e: "a + 1 + (wc - (w + 1)) = a + (wc - w)" using wlt by simp
    have "remap_words temp idx cols c a d = Some (a + (wc - w), d')"
      using True rn al r e by (subst remap_words.simps) simp
    moreover have "length d' = length d" using l by simp
    moreover have "\<forall>k<length d.
       if a \<le> k \<and> k < a + (wc - w)
       then \<forall>n<8. nibble n (d' ! k) = src_nibble temp (idx ! (8 * (w + (k - a)) + n))
       else d' ! k = d ! k"
    proof (intro allI impI)
      fix k assume k: "k < length d"
      then have k1: "k < length ?d1" by simp
      consider "k < a" | "k = a" | "a < k" by linarith
      then show "if a \<le> k \<and> k < a + (wc - w)
         then \<forall>n<8. nibble n (d' ! k) = src_nibble temp (idx ! (8 * (w + (k - a)) + n))
         else d' ! k = d ! k"
      proof cases
        case 1
        then show ?thesis using v[rule_format, OF k1] by simp
      next
        case 2
        have "d' ! k = rv" using v[rule_format, OF k1] 2 al by simp
        moreover have "a < a + (wc - w)" using wlt by simp
        ultimately show ?thesis using 2 nv "1.prems"(2) wlt by auto
      next
        case 3
        then have "w + 1 + (k - (a + 1)) = w + (k - a)" by simp
        then show ?thesis using v[rule_format, OF k1] 3 e by auto
      qed
    qed
    ultimately show ?thesis by blast
  next
    case False
    then have "w = wc" using "1.prems" by simp
    then show ?thesis by (subst remap_words.simps) (use False in auto)
  qed
qed

lemma remap_rows_4bit_spec:
  assumes "cols = 8 * wc" and "cols \<le> length idx"
    and "\<forall>j<length idx. unat (idx ! j) div 8 < wc"
    and "length d = rows * wc" and "a = r * wc" and "r \<le> rows"
  shows "\<exists>d'. remap_rows_4bit idx rows cols r a d = Some d' \<and> length d' = length d \<and>
    (\<forall>k<length d.
       if a \<le> k
       then \<forall>n<8. nibble n (d' ! k) =
              nibble (unat (idx ! (8 * (k mod wc) + n)) mod 8)
                (d ! ((k div wc) * wc + unat (idx ! (8 * (k mod wc) + n)) div 8))
       else d' ! k = d ! k)"
  using assms
proof (induction idx rows cols r a d rule: remap_rows_4bit.induct)
  case (1 idx rows cols r a d)
  show ?case
  proof (cases "r < rows")
    case True
    have cw: "cols div 8 = wc" using "1.prems"(1) by simp
    have "(r + 1) * wc \<le> rows * wc" using True by (intro mult_le_mono1) simp
    then have fit: "a + wc \<le> length d" using "1.prems" by simp
    then have fit': "a + cols div 8 \<le> length d" using cw by simp
    let ?temp = "take (cols div 8) (drop a d)"
    have lt: "length ?temp = wc" using fit cw by simp
    have inr: "\<forall>j<length idx. unat (idx ! j) div 8 < length ?temp" using "1.prems"(3) lt by simp
    have "a + (wc - 0) \<le> length d" using fit by simp
    from remap_words_spec[OF "1.prems"(1) _ _ "1.prems"(2) inr this, of 0] obtain d1 where
      c: "remap_words ?temp idx cols 0 a d = Some (a + wc, d1)" and l1: "length d1 = length d" and
      v1: "\<forall>k<length d. if a \<le> k \<and> k < a + wc
             then \<forall>n<8. nibble n (d1 ! k) = src_nibble ?temp (idx ! (8 * (k - a) + n))
             else d1 ! k = d ! k"
      by auto
    have "\<exists>d'. remap_rows_4bit idx rows cols (r + 1) (a + wc) d1 = Some d' \<and> length d' = length d1 \<and>
      (\<forall>k<length d1.
         if a + wc \<le> k
         then \<forall>n<8. nibble n (d' ! k) =
              nibble (unat (idx ! (8 * (k mod wc) + n)) mod 8)
                (d1 ! ((k div wc) * wc + unat (idx ! (8 * (k mod wc) + n)) div 8))
         else d' ! k = d1 ! k)"
      using "1.IH"[OF True fit' c refl "1.prems"(1,2,3)] l1 "1.prems"(4,5) True by simp
    then obtain d' where
      r: "remap_rows_4bit idx rows cols (r + 1) (a + wc) d1 = Some d'" and l: "length d' = length d1" and
      v: "\<forall>k<length d1.
         if a + wc \<le> k
         then \<forall>n<8. nibble n (d' ! k) =
              nibble (unat (idx ! (8 * (k mod wc) + n)) mod 8)
                (d1 ! ((k div wc) * wc + unat (idx ! (8 * (k mod wc) + n)) div 8))
         else d' ! k = d1 ! k"
      by blast
    have "remap_rows_4bit idx rows cols r a d = Some d'"
      using True fit' c r by (subst remap_rows_4bit.simps) simp
    moreover have "length d' = length d" using l l1 by simp
    moreover have "\<forall>k<length d.
       if a \<le> k
       then \<forall>n<8. nibble n (d' ! k) =
              nibble (unat (idx ! (8 * (k mod wc) + n)) mod 8)
                (d ! ((k div wc) * wc + unat (idx ! (8 * (k mod wc) + n)) div 8))
       else d' ! k = d ! k"
    proof (intro allI impI)
      fix k assume k: "k < length d"
      then have k1: "k < length d1" using l1 by simp
      have wpos: "0 < wc" using k "1.prems"(4) by (cases wc) auto
      consider "k < a" | "a \<le> k" "k < a + wc" | "a + wc \<le> k" by linarith
      then show "if a \<le> k
       then \<forall>n<8. nibble n (d' ! k) =
              nibble (unat (idx ! (8 * (k mod wc) + n)) mod 8)
                (d ! ((k div wc) * wc + unat (idx ! (8 * (k mod wc) + n)) div 8))
       else d' ! k = d ! k"
      proof cases
        case 1
        then show ?thesis using v[rule_format, OF k1] v1[rule_format, OF k] by simp
      next
        case 2
        have kd: "k div wc = r"
          by (rule div_nat_eqI) (use 2 "1.prems"(5) in \<open>simp_all add: mult.commute\<close>)
        have km: "k mod wc = k - a" using kd "1.prems"(5)
          by (simp flip: minus_div_mult_eq_mod)
        have dk: "d' ! k = d1 ! k" using v[rule_format, OF k1] 2 by simp
        have "nibble n (d' ! k) =
              nibble (unat (idx ! (8 * (k mod wc) + n)) mod 8)
                (d ! ((k div wc) * wc + unat (idx ! (8 * (k mod wc) + n)) div 8))" if n: "n < 8" for n
        proof -
          have "8 * (k - a) + n < cols" using 2 n "1.prems"(1) by simp
          then have jl: "8 * (k - a) + n < length idx" using "1.prems"(2) by simp
          then have q: "unat (idx ! (8 * (k - a) + n)) div 8 < wc" using "1.prems"(3) by simp
          then have "?temp ! (unat (idx ! (8 * (k - a) + n)) div 8) =
            d ! (a + unat (idx ! (8 * (k - a) + n)) div 8)"
            using fit cw by simp
          then show ?thesis
            using v1[rule_format, OF k] 2 n dk kd km "1.prems"(5) by (simp add: src_nibble_def)
        qed
        then show ?thesis using 2 by simp
      next
        case 3
        have "(r + 1) * wc \<le> k" using 3 "1.prems"(5) by simp
        then have "r + 1 \<le> k div wc" using wpos
          by (simp only: less_eq_div_iff_mult_less_eq)
        then have "(r + 1) * wc \<le> (k div wc) * wc" by (intro mult_le_mono1)
        then have ge: "a + wc \<le> (k div wc) * wc" using "1.prems"(5) by simp
        have "k div wc < rows" using k "1.prems"(4) wpos
          by (simp add: less_mult_imp_div_less)
        then have up: "(k div wc + 1) * wc \<le> rows * wc" by (intro mult_le_mono1) simp
        have "nibble n (d' ! k) =
              nibble (unat (idx ! (8 * (k mod wc) + n)) mod 8)
                (d ! ((k div wc) * wc + unat (idx ! (8 * (k mod wc) + n)) div 8))" if n: "n < 8" for n
        proof -
          let ?j = "8 * (k mod wc) + n"
          have "k mod wc < wc" using wpos by simp
          then have "?j < cols" using n "1.prems"(1) by simp
          then have "?j < length idx" using "1.prems"(2) by simp
          then have q: "unat (idx ! ?j) div 8 < wc" using "1.prems"(3) by simp
          let ?s = "(k div wc) * wc + unat (idx ! ?j) div 8"
          have s1: "a + wc \<le> ?s" using ge by simp
          have s2: "?s < length d" using q up "1.prems"(4) by simp
          have "d1 ! ?s = d ! ?s" using v1[rule_format, OF s2] s1 by simp
          then show ?thesis using v[rule_format, OF k1] 3 n by simp
        qed
        then show ?thesis using 3 by simp
      qed
    qed
    ultimately show ?thesis by blast
  next
    case False
    then have "r = rows" using "1.prems" by simp
    then show ?thesis using "1.prems" by (subst remap_rows_4bit.simps) simp
  qed
qed

subsection \<open>The two entry points\<close>

lemma identity_index_nth:
  assumes "identity_index ix" and "c < length (idata ix)"
  shows "unat (idata ix ! c) = c"
proof -
  have "map unat (idata ix) ! c = [0..<length (idata ix)] ! c"
    using assms(1) by (simp add: identity_index_def)
  then show ?thesis using assms(2) by simp
qed

lemma tensor_remap_returns:
  assumes "wf_matrix t" and "wf_index ix" and "size1 t = isize0 ix"
    and "mdtype t = kInt" and "idtype ix = kInt" and "index_in_range ix (size1 t)"
  shows "\<exists>d'. tensor_remap t ix = Returned (t\<lparr>mdata := d'\<rparr>) \<and> length d' = length (mdata t) \<and>
    (\<forall>k<length (mdata t). d' ! k =
        mdata t ! ((k div size1 t) * size1 t + unat (idata ix ! (k mod size1 t))))"
proof -
  have a: "size1 t \<le> length (idata ix)" using assms(2,3) by (simp add: wf_index_def)
  have b: "\<forall>j < size1 t. unat (idata ix ! j) < size1 t"
    using assms(2,3,6) by (simp add: wf_index_def index_in_range_def)
  have c: "length (mdata t) = size0 t * size1 t" using assms(1) by (simp add: wf_matrix_def)
  from remap_rows_spec[OF a b c, of 0 0] obtain d' where
    "remap_rows (idata ix) (size0 t) (size1 t) 0 0 (mdata t) = Some d'" "length d' = length (mdata t)"
    "\<forall>k<length (mdata t). d' ! k =
        mdata t ! ((k div size1 t) * size1 t + unat (idata ix ! (k mod size1 t)))"
    by auto
  then show ?thesis using assms(3,4,5)
    by (auto simp add: tensor_remap_def TORCH_CHECK_SHAPES_def)
qed

lemma tensor_remap_4bit_returns:
  assumes "wf_matrix t" and "wf_index ix" and "isize0 ix = size1 t * 8"
    and "mdtype t = kInt" and "idtype ix = kInt" and "index_in_range ix (isize0 ix)"
  shows "\<exists>d'. tensor_remap_4bit t ix = Returned (t\<lparr>mdata := d'\<rparr>) \<and> length d' = length (mdata t) \<and>
    (\<forall>k<length (mdata t). \<forall>n<8. nibble n (d' ! k) =
        nibble (unat (idata ix ! (8 * (k mod size1 t) + n)) mod 8)
          (mdata t ! ((k div size1 t) * size1 t + unat (idata ix ! (8 * (k mod size1 t) + n)) div 8)))"
proof -
  have a: "isize0 ix = 8 * size1 t" using assms(3) by simp
  have b: "isize0 ix \<le> length (idata ix)" using assms(2) by (simp add: wf_index_def)
  have c: "\<forall>j<length (idata ix). unat (idata ix ! j) div 8 < size1 t"
  proof (intro allI impI)
    fix j assume "j < length (idata ix)"
    then have "unat (idata ix ! j) < 8 * size1 t"
      using assms(6) a by (simp add: index_in_range_def)
    then show "unat (idata ix ! j) div 8 < size1 t" by simp
  qed
  have d: "length (mdata t) = size0 t * size1 t" using assms(1) by (simp add: wf_matrix_def)
  from remap_rows_4bit_spec[OF a b c d, of 0 0] obtain d' where
    "remap_rows_4bit (idata ix) (size0 t) (isize0 ix) 0 0 (mdata t) = Some d'"
    "length d' = length (mdata t)"
    "\<forall>k<length (mdata t). \<forall>n<8. nibble n (d' ! k) =
        nibble (unat (idata ix ! (8 * (k mod size1 t) + n)) mod 8)
          (mdata t ! ((k div size1 t) * size1 t + unat (idata ix ! (8 * (k mod size1 t) + n)) div 8))"
    by auto
  then show ?thesis using assms(3,4,5)
    by (auto simp add: tensor_remap_4bit_def TORCH_CHECK_SHAPES_def)
qed

text \<open>
  Claim C5. For a \<open>rows \<times> cols\<close> matrix of 32-bit values and an index of length \<open>cols\<close>
  whose entries are below \<open>cols\<close>, \<open>tensor_remap\<close> returns, and the element at row \<open>r\<close>,
  column \<open>c\<close> of the result is the original element at row \<open>r\<close>, column \<open>index[c]\<close>: a row of
  the result is a function of the same row of the input alone, and the shape is kept.
\<close>

theorem tensor_remap_gather:
  assumes "wf_matrix t" and "wf_index ix" and "size1 t = isize0 ix"
    and "mdtype t = kInt" and "idtype ix = kInt" and "index_in_range ix (size1 t)"
  shows "\<exists>t'. tensor_remap t ix = Returned t' \<and>
    size0 t' = size0 t \<and> size1 t' = size1 t \<and> length (mdata t') = length (mdata t) \<and>
    (\<forall>r < size0 t. \<forall>c < size1 t.
        mdata t' ! (r * size1 t + c) = mdata t ! (r * size1 t + unat (idata ix ! c)))"
proof -
  from tensor_remap_returns[OF assms] obtain d' where
    r: "tensor_remap t ix = Returned (t\<lparr>mdata := d'\<rparr>)" and l: "length d' = length (mdata t)" and
    v: "\<forall>k<length (mdata t). d' ! k =
        mdata t ! ((k div size1 t) * size1 t + unat (idata ix ! (k mod size1 t)))"
    by blast
  have "mdata (t\<lparr>mdata := d'\<rparr>) ! (r * size1 t + c) = mdata t ! (r * size1 t + unat (idata ix ! c))"
    if r: "r < size0 t" and c: "c < size1 t" for r c
  proof -
    have "(r + 1) * size1 t \<le> size0 t * size1 t" using r by (intro mult_le_mono1) simp
    then have "r * size1 t + c < length (mdata t)" using c assms(1) by (simp add: wf_matrix_def)
    moreover have "(r * size1 t + c) div size1 t = r" using c by simp
    moreover have "(r * size1 t + c) mod size1 t = c" using c by simp
    ultimately show ?thesis using v by simp
  qed
  then show ?thesis using r l by simp
qed

theorem tensor_remap_gather_witness:
  "\<exists>t'. tensor_remap \<lparr>size0 = 1, size1 = 8, mdtype = kInt, mdata = [10, 11, 12, 13, 14, 15, 16, 17]\<rparr>
       \<lparr>isize0 = 8, idtype = kInt, idata = [7, 6, 5, 4, 3, 2, 1, 0]\<rparr> = Returned t' \<and>
     mdata t' ! 0 = 17 \<and> mdata t' ! 1 = 16 \<and> mdata t' ! 7 = 10"
proof -
  let ?t = "\<lparr>size0 = 1, size1 = 8, mdtype = kInt, mdata = [10, 11, 12, 13, 14, 15, 16, 17 :: u32]\<rparr>"
  let ?ix = "\<lparr>isize0 = 8, idtype = kInt, idata = [7, 6, 5, 4, 3, 2, 1, 0 :: u32]\<rparr>"
  have "wf_matrix ?t" "wf_index ?ix" "size1 ?t = isize0 ?ix" "mdtype ?t = kInt" "idtype ?ix = kInt"
    "index_in_range ?ix (size1 ?t)"
    by (simp_all add: wf_matrix_def wf_index_def index_in_range_def)
  from tensor_remap_gather[OF this] obtain t' where
    r: "tensor_remap ?t ?ix = Returned t'" and
    v: "\<forall>r < size0 ?t. \<forall>c < size1 ?t.
        mdata t' ! (r * size1 ?t + c) = mdata ?t ! (r * size1 ?t + unat (idata ?ix ! c))"
    by blast
  from v[rule_format, of 0 0] v[rule_format, of 0 1] v[rule_format, of 0 7]
  have "mdata t' ! 0 = 17 \<and> mdata t' ! 1 = 16 \<and> mdata t' ! 7 = 10" by simp
  with r show ?thesis by blast
qed

text \<open>
  Claim C6. For a packed matrix of \<open>rows \<times> cols/8\<close> words and an index of length \<open>cols\<close> whose
  entries are below \<open>cols\<close>, \<open>tensor_remap_4bit\<close> returns, and nibble \<open>b\<close> of the output word
  \<open>w\<close> of row \<open>r\<close> is the nibble \<open>index[c] % 8\<close> of the original word \<open>index[c] / 8\<close> of the
  same row, where \<open>c = 8 * w + b\<close> is the logical output position.
\<close>

theorem tensor_remap_4bit_gather:
  assumes "wf_matrix t" and "wf_index ix" and "isize0 ix = size1 t * 8"
    and "mdtype t = kInt" and "idtype ix = kInt" and "index_in_range ix (isize0 ix)"
  shows "\<exists>t'. tensor_remap_4bit t ix = Returned t' \<and>
    size0 t' = size0 t \<and> size1 t' = size1 t \<and> length (mdata t') = length (mdata t) \<and>
    (\<forall>r < size0 t. \<forall>w < size1 t. \<forall>b < 8.
        nibble b (mdata t' ! (r * size1 t + w)) =
        nibble (unat (idata ix ! (8 * w + b)) mod 8)
          (mdata t ! (r * size1 t + unat (idata ix ! (8 * w + b)) div 8)))"
proof -
  from tensor_remap_4bit_returns[OF assms] obtain d' where
    r: "tensor_remap_4bit t ix = Returned (t\<lparr>mdata := d'\<rparr>)" and l: "length d' = length (mdata t)" and
    v: "\<forall>k<length (mdata t). \<forall>n<8. nibble n (d' ! k) =
        nibble (unat (idata ix ! (8 * (k mod size1 t) + n)) mod 8)
          (mdata t ! ((k div size1 t) * size1 t + unat (idata ix ! (8 * (k mod size1 t) + n)) div 8))"
    by blast
  have "nibble b (mdata (t\<lparr>mdata := d'\<rparr>) ! (r * size1 t + w)) =
        nibble (unat (idata ix ! (8 * w + b)) mod 8)
          (mdata t ! (r * size1 t + unat (idata ix ! (8 * w + b)) div 8))"
    if r: "r < size0 t" and w: "w < size1 t" and b: "b < 8" for r w b
  proof -
    have "(r + 1) * size1 t \<le> size0 t * size1 t" using r by (intro mult_le_mono1) simp
    then have "r * size1 t + w < length (mdata t)" using w assms(1) by (simp add: wf_matrix_def)
    moreover have "(r * size1 t + w) div size1 t = r" using w by simp
    moreover have "(r * size1 t + w) mod size1 t = w" using w by simp
    ultimately show ?thesis using v b by simp
  qed
  then show ?thesis using r l by simp
qed

theorem tensor_remap_4bit_gather_witness:
  "\<exists>t'. tensor_remap_4bit \<lparr>size0 = 1, size1 = 1, mdtype = kInt, mdata = [0x87654321]\<rparr>
       \<lparr>isize0 = 8, idtype = kInt, idata = [7, 6, 5, 4, 3, 2, 1, 0]\<rparr> = Returned t' \<and>
     nibble 0 (mdata t' ! 0) = 8 \<and> nibble 1 (mdata t' ! 0) = 7 \<and> nibble 7 (mdata t' ! 0) = 1"
proof -
  let ?t = "\<lparr>size0 = 1, size1 = 1, mdtype = kInt, mdata = [0x87654321 :: u32]\<rparr>"
  let ?ix = "\<lparr>isize0 = 8, idtype = kInt, idata = [7, 6, 5, 4, 3, 2, 1, 0 :: u32]\<rparr>"
  have "wf_matrix ?t" "wf_index ?ix" "isize0 ?ix = size1 ?t * 8" "mdtype ?t = kInt" "idtype ?ix = kInt"
    "index_in_range ?ix (isize0 ?ix)"
    by (simp_all add: wf_matrix_def wf_index_def index_in_range_def)
  from tensor_remap_4bit_gather[OF this] obtain t' where
    r: "tensor_remap_4bit ?t ?ix = Returned t'" and
    v: "\<forall>r < size0 ?t. \<forall>w < size1 ?t. \<forall>b < 8.
        nibble b (mdata t' ! (r * size1 ?t + w)) =
        nibble (unat (idata ?ix ! (8 * w + b)) mod 8)
          (mdata ?t ! (r * size1 ?t + unat (idata ?ix ! (8 * w + b)) div 8))"
    by blast
  from v[rule_format, of 0 0 0] v[rule_format, of 0 0 1] v[rule_format, of 0 0 7]
  have "nibble 0 (mdata t' ! 0) = 8 \<and> nibble 1 (mdata t' ! 0) = 7 \<and> nibble 7 (mdata t' ! 0) = 1"
    by (simp add: nibble_def)
  with r show ?thesis by blast
qed

text \<open>
  Claim C7. With the identity permutation both \<open>tensor_remap\<close> and \<open>tensor_remap_4bit\<close>
  return the matrix they were given, whatever its contents.
\<close>

theorem remap_identity_noop:
  assumes "wf_matrix t" and "wf_index ix" and "size1 t = isize0 ix"
    and "mdtype t = kInt" and "idtype ix = kInt" and "identity_index ix"
    and "wf_matrix p" and "wf_index px" and "isize0 px = size1 p * 8"
    and "mdtype p = kInt" and "idtype px = kInt" and "identity_index px"
  shows "tensor_remap t ix = Returned t \<and> tensor_remap_4bit p px = Returned p"
proof
  have inr: "index_in_range ix (size1 t)"
    unfolding index_in_range_def
  proof
    fix i assume "i \<in> set (idata ix)"
    then obtain c where "c < length (idata ix)" "idata ix ! c = i" by (auto simp add: in_set_conv_nth)
    then show "unat i < size1 t" using assms(2,3) identity_index_nth[OF assms(6)] by (auto simp add: wf_index_def)
  qed
  from tensor_remap_returns[OF assms(1-5) inr] obtain d' where
    r: "tensor_remap t ix = Returned (t\<lparr>mdata := d'\<rparr>)" and l: "length d' = length (mdata t)" and
    v: "\<forall>k<length (mdata t). d' ! k =
        mdata t ! ((k div size1 t) * size1 t + unat (idata ix ! (k mod size1 t)))"
    by blast
  have "d' ! k = mdata t ! k" if k: "k < length (mdata t)" for k
  proof -
    have cpos: "0 < size1 t" using k assms(1) by (cases "size1 t") (auto simp add: wf_matrix_def)
    then have "k mod size1 t < length (idata ix)" using assms(2,3) by (simp add: wf_index_def)
    then have "unat (idata ix ! (k mod size1 t)) = k mod size1 t"
      using assms(6) by (simp add: identity_index_nth)
    then show ?thesis using v k by simp
  qed
  then have "d' = mdata t" using l by (simp add: list_eq_iff_nth_eq)
  then show "tensor_remap t ix = Returned t" using r by simp
next
  have inr: "index_in_range px (isize0 px)"
    unfolding index_in_range_def
  proof
    fix i assume "i \<in> set (idata px)"
    then obtain c where "c < length (idata px)" "idata px ! c = i" by (auto simp add: in_set_conv_nth)
    then show "unat i < isize0 px" using assms(8) identity_index_nth[OF assms(12)] by (auto simp add: wf_index_def)
  qed
  from tensor_remap_4bit_returns[OF assms(7-11) inr] obtain d' where
    r: "tensor_remap_4bit p px = Returned (p\<lparr>mdata := d'\<rparr>)" and l: "length d' = length (mdata p)" and
    v: "\<forall>k<length (mdata p). \<forall>n<8. nibble n (d' ! k) =
        nibble (unat (idata px ! (8 * (k mod size1 p) + n)) mod 8)
          (mdata p ! ((k div size1 p) * size1 p + unat (idata px ! (8 * (k mod size1 p) + n)) div 8))"
    by blast
  have "d' ! k = mdata p ! k" if k: "k < length (mdata p)" for k
  proof (rule nibbles_eqI)
    fix n :: nat assume n: "n < 8"
    have wpos: "0 < size1 p" using k assms(7) by (cases "size1 p") (auto simp add: wf_matrix_def)
    then have "k mod size1 p < size1 p" by simp
    then have "8 * (k mod size1 p) + n < length (idata px)"
      using assms(8,9) n by (simp add: wf_index_def)
    then have "unat (idata px ! (8 * (k mod size1 p) + n)) = 8 * (k mod size1 p) + n"
      using assms(12) by (simp add: identity_index_nth)
    then show "nibble n (d' ! k) = nibble n (mdata p ! k)" using v k n by simp
  qed
  then have "d' = mdata p" using l by (simp add: list_eq_iff_nth_eq)
  then show "tensor_remap_4bit p px = Returned p" using r by simp
qed

theorem remap_identity_noop_witness:
  "tensor_remap \<lparr>size0 = 2, size1 = 3, mdtype = kInt, mdata = [10, 11, 12, 20, 21, 22]\<rparr>
       \<lparr>isize0 = 3, idtype = kInt, idata = [0, 1, 2]\<rparr> =
   Returned \<lparr>size0 = 2, size1 = 3, mdtype = kInt, mdata = [10, 11, 12, 20, 21, 22]\<rparr> \<and>
   tensor_remap_4bit \<lparr>size0 = 2, size1 = 1, mdtype = kInt, mdata = [0x87654321, 0xdeadbeef]\<rparr>
       \<lparr>isize0 = 8, idtype = kInt, idata = [0, 1, 2, 3, 4, 5, 6, 7]\<rparr> =
   Returned \<lparr>size0 = 2, size1 = 1, mdtype = kInt, mdata = [0x87654321, 0xdeadbeef]\<rparr>"
proof -
  let ?t = "\<lparr>size0 = 2, size1 = 3, mdtype = kInt, mdata = [10, 11, 12, 20, 21, 22 :: u32]\<rparr>"
  let ?ix = "\<lparr>isize0 = 3, idtype = kInt, idata = [0, 1, 2 :: u32]\<rparr>"
  let ?p = "\<lparr>size0 = 2, size1 = 1, mdtype = kInt, mdata = [0x87654321, 0xdeadbeef :: u32]\<rparr>"
  let ?px = "\<lparr>isize0 = 8, idtype = kInt, idata = [0, 1, 2, 3, 4, 5, 6, 7 :: u32]\<rparr>"
  have i1: "identity_index ?ix" by code_simp
  have i2: "identity_index ?px" by code_simp
  have "wf_matrix ?t" "wf_index ?ix" "size1 ?t = isize0 ?ix" "mdtype ?t = kInt" "idtype ?ix = kInt"
    "identity_index ?ix"
    "wf_matrix ?p" "wf_index ?px" "isize0 ?px = size1 ?p * 8" "mdtype ?p = kInt" "idtype ?px = kInt"
    "identity_index ?px"
    using i1 i2 by (simp_all add: wf_matrix_def wf_index_def)
  from remap_identity_noop[OF this] show ?thesis .
qed

text \<open>
  Claim C10. When every entry of the index is in range (below \<open>cols\<close> for the dense variant,
  below 8 times the number of packed words of a row for the packed one), no access of either
  function leaves its buffer: the out-of-bounds branch of the model is not taken. The index
  need not be a permutation, entries may repeat or be missing.
\<close>

theorem remap_scratch_in_bounds:
  assumes "wf_matrix t" and "wf_index ix"
  shows "(index_in_range ix (size1 t) \<longrightarrow> tensor_remap t ix \<noteq> Undefined) \<and>
         (index_in_range ix (8 * size1 t) \<longrightarrow> tensor_remap_4bit t ix \<noteq> Undefined)"
proof (intro conjI impI)
  assume inr: "index_in_range ix (size1 t)"
  show "tensor_remap t ix \<noteq> Undefined"
  proof (cases "size1 t = isize0 ix \<and> mdtype t = kInt \<and> idtype ix = kInt")
    case True
    with tensor_remap_returns[OF assms _ _ _ inr] show ?thesis by auto
  next
    case False
    then show ?thesis by (auto simp add: tensor_remap_def TORCH_CHECK_SHAPES_def)
  qed
next
  assume inr: "index_in_range ix (8 * size1 t)"
  show "tensor_remap_4bit t ix \<noteq> Undefined"
  proof (cases "isize0 ix = size1 t * 8 \<and> mdtype t = kInt \<and> idtype ix = kInt")
    case True
    then have "index_in_range ix (isize0 ix)" using inr by (simp add: mult.commute)
    with True tensor_remap_4bit_returns[OF assms] show ?thesis by auto
  next
    case False
    then show ?thesis by (auto simp add: tensor_remap_4bit_def TORCH_CHECK_SHAPES_def)
  qed
qed

theorem remap_scratch_in_bounds_witness:
  "index_in_range \<lparr>isize0 = 8, idtype = kInt, idata = [3, 3, 0, 0, 7, 7, 7, 3]\<rparr> 8 \<and>
   tensor_remap \<lparr>size0 = 1, size1 = 8, mdtype = kInt, mdata = [10, 11, 12, 13, 14, 15, 16, 17]\<rparr>
       \<lparr>isize0 = 8, idtype = kInt, idata = [3, 3, 0, 0, 7, 7, 7, 3]\<rparr> \<noteq> Undefined \<and>
   tensor_remap_4bit \<lparr>size0 = 1, size1 = 1, mdtype = kInt, mdata = [0x87654321]\<rparr>
       \<lparr>isize0 = 8, idtype = kInt, idata = [3, 3, 0, 0, 7, 7, 7, 3]\<rparr> \<noteq> Undefined"
proof -
  let ?t = "\<lparr>size0 = 1, size1 = 8, mdtype = kInt, mdata = [10, 11, 12, 13, 14, 15, 16, 17 :: u32]\<rparr>"
  let ?p = "\<lparr>size0 = 1, size1 = 1, mdtype = kInt, mdata = [0x87654321 :: u32]\<rparr>"
  let ?ix = "\<lparr>isize0 = 8, idtype = kInt, idata = [3, 3, 0, 0, 7, 7, 7, 3 :: u32]\<rparr>"
  have r: "index_in_range ?ix 8" by (simp add: index_in_range_def)
  have w: "wf_matrix ?t" "wf_matrix ?p" "wf_index ?ix" by (simp_all add: wf_matrix_def wf_index_def)
  from remap_scratch_in_bounds[OF w(1) w(3)] remap_scratch_in_bounds[OF w(2) w(3)] r
  show ?thesis by simp
qed

section \<open>Properties of the segment loader\<close>

subsection \<open>Buffers and traces\<close>

lemma length_blit [simp]: "length (blit buf pos bs) = length buf"
  by (simp add: blit_def)

lemma nth_blit:
  "k < length buf \<Longrightarrow>
   blit buf pos bs ! k = (if pos \<le> k \<and> k < pos + length bs then bs ! (k - pos) else buf ! k)"
  by (simp add: blit_def)

lemma length_pread: "length (pread f off n) = min n (length f - off)"
  by (simp add: pread_def)

lemma nth_pread: "j < length (pread f off n) \<Longrightarrow> pread f off n ! j = f ! (off + j)"
  by (cases "off \<le> length f") (simp_all add: pread_def)

lemma pread_full:
  assumes "off + n \<le> length f"
  shows "length (pread f off n) = n"
  using assms by (simp add: length_pread)

lemma pushed_append: "pushed (tr @ tr') = pushed tr @ pushed tr'"
  by (induction tr rule: pushed.induct) simp_all

lemma count_pushes_pushed: "count_pushes tr k = queued (pushed tr) k"
  by (induction tr rule: pushed.induct) (simp_all add: count_pushes_def queued_def)

lemma only_reads_counts:
  assumes "only_reads tr"
  shows "count_pushes tr k = 0" and "count_copies tr k = 0" and "pushed tr = []"
proof -
  have "filter (pushes_pos k) tr = []" using assms by (auto simp add: only_reads_def filter_empty_conv)
  then show "count_pushes tr k = 0" by (simp add: count_pushes_def)
  have "filter (copies_pos k) tr = []" using assms by (auto simp add: only_reads_def filter_empty_conv)
  then show "count_copies tr k = 0" by (simp add: count_copies_def)
  show "pushed tr = []" using assms
    by (induction tr rule: pushed.induct) (auto simp add: only_reads_def)
qed

lemma pushed_all_notify: "pushed (map all_notify tr) = pushed tr"
  by (induction tr rule: pushed.induct) (simp_all add: all_notify_def)

lemma sum_list_map_update:
  fixes f :: "'a \<Rightarrow> nat"
  assumes "j < length xs"
  shows "sum_list (map f (xs[j := y])) + f (xs ! j) = sum_list (map f xs) + f y"
proof -
  have xs: "xs = take j xs @ xs ! j # drop (Suc j) xs"
    using assms by (simp add: id_take_nth_drop)
  have "xs[j := y] = take j xs @ y # drop (Suc j) xs"
    using assms by (simp add: upd_conv_take_nth_drop)
  then have "sum_list (map f (xs[j := y])) + f (xs ! j) =
      sum_list (map f (take j xs)) + f y + sum_list (map f (drop (Suc j) xs)) + f (xs ! j)"
    by simp
  also have "\<dots> = sum_list (map f (take j xs @ xs ! j # drop (Suc j) xs)) + f y"
    by simp
  also have "\<dots> = sum_list (map f xs) + f y" using xs by simp
  finally show ?thesis .
qed

subsection \<open>One step of the pipeline\<close>

text \<open>
  The failure flag is never reset. A step that leaves it unset is one of a few moves:
  the three lemmas after that list them for a read worker, a copy worker and the calling
  thread.
\<close>

lemma load_failed_step_mono:
  "load_failed s \<Longrightarrow> load_failed (step e cfg offset sz t s)"
  by (auto simp add: step_def load_thread_def copy_worker_def main_step_def Let_def
      split: tid.splits lworker.splits cworker.splits option.splits mthread.splits list.splits prod.splits)

lemma load_failed_fold_mono:
  "load_failed s \<Longrightarrow> load_failed (fold (step e cfg offset sz) sched s)"
  by (induction sched arbitrary: s) (simp_all add: load_failed_step_mono)

lemma loader_step_cases:
  assumes "\<not> load_failed (step e cfg offset sz (Loader j) s)" and "j < length (loaders s)"
  obtains (idle) "step e cfg offset sz (Loader j) s = s"
  | (opened) p where "loaders s ! j = L_open p"
      "step e cfg offset sz (Loader j) s = s\<lparr>loaders := (loaders s)[j := L_loop p]\<rparr>"
  | (finish) p where "loaders s ! j = L_loop p" "\<not> p < sz"
      "step e cfg offset sz (Loader j) s = s\<lparr>loaders := (loaders s)[j := L_done]\<rparr>"
  | (block) p where "loaders s ! j = L_loop p" "p < sz"
      "length (pread (file_of e) (offset + p) (block_end cfg sz p - p)) = block_end cfg sz p - p"
      "step e cfg offset sz (Loader j) s =
         s\<lparr>load_buffer := blit (load_buffer s) p (pread (file_of e) (offset + p) (block_end cfg sz p - p)),
           dq := dq s @ [(p, block_end cfg sz p)],
           trace := trace s @ [Pread (offset + p) (block_end cfg sz p - p) p, Push p (block_end cfg sz p), Notify_one],
           loaders := (loaders s)[j := L_loop (p + STLOADER_THREADS cfg * STLOADER_BLOCK_SIZE cfg)]\<rparr>"
proof -
  have nf: "\<not> load_failed s" using assms(1) load_failed_step_mono by blast
  show ?thesis
  proof (cases "loaders s ! j")
    case L_done
    then have "step e cfg offset sz (Loader j) s = s"
      using assms(2) by (simp add: step_def load_thread_def list_update_same_conv)
    then show ?thesis by (rule idle)
  next
    case (L_open p)
    show ?thesis
    proof (cases "file_bytes e")
      case None
      then have "load_failed (step e cfg offset sz (Loader j) s)"
        using L_open assms(2) by (simp add: step_def load_thread_def)
      then show ?thesis using assms(1) by simp
    next
      case (Some f)
      then have "step e cfg offset sz (Loader j) s = s\<lparr>loaders := (loaders s)[j := L_loop p]\<rparr>"
        using L_open assms(2) by (simp add: step_def load_thread_def)
      then show ?thesis by (rule opened[OF L_open])
    qed
  next
    case (L_loop p)
    show ?thesis
    proof (cases "p < sz")
      case False
      then have "step e cfg offset sz (Loader j) s = s\<lparr>loaders := (loaders s)[j := L_done]\<rparr>"
        using L_loop assms(2) by (simp add: step_def load_thread_def)
      then show ?thesis by (rule finish[OF L_loop False])
    next
      case True
      let ?b = "block_end cfg sz p"
      let ?got = "pread (file_of e) (offset + p) (?b - p)"
      show ?thesis
      proof (cases "length ?got = ?b - p")
        case False
        then have "load_failed (step e cfg offset sz (Loader j) s)"
          using L_loop True nf assms(2)
          by (simp add: step_def load_thread_def Let_def block_end_def file_of_def)
        then show ?thesis using assms(1) by simp
      next
        case len: True
        have "step e cfg offset sz (Loader j) s =
         s\<lparr>load_buffer := blit (load_buffer s) p ?got,
           dq := dq s @ [(p, ?b)],
           trace := trace s @ [Pread (offset + p) (?b - p) p, Push p ?b, Notify_one],
           loaders := (loaders s)[j := L_loop (p + STLOADER_THREADS cfg * STLOADER_BLOCK_SIZE cfg)]\<rparr>"
          using L_loop True nf assms(2) len
          by (simp add: step_def load_thread_def Let_def block_end_def file_of_def)
        then show ?thesis by (rule block[OF L_loop True len])
      qed
    qed
  qed
qed

lemma copier_step_cases:
  assumes "\<not> load_failed (step e cfg offset sz (Copier j) s)" and "j < length (copiers s)"
  obtains (idle) "step e cfg offset sz (Copier j) s = s"
  | (exit) "copiers s ! j = C_run" "dq s = []" "done_loading s"
      "step e cfg offset sz (Copier j) s = s\<lparr>copiers := (copiers s)[j := C_done]\<rparr>"
  | (copy) a b rest where "copiers s ! j = C_run" "dq s = (a, b) # rest"
      "step e cfg offset sz (Copier j) s =
         s\<lparr>cuda_buffer := copy_bytes s a b, dq := rest, trace := trace s @ [Memcpy a b]\<rparr>"
proof -
  have nf: "\<not> load_failed s" using assms(1) load_failed_step_mono by blast
  show ?thesis
  proof (cases "copiers s ! j")
    case C_done
    then have "step e cfg offset sz (Copier j) s = s"
      using assms(2) by (simp add: step_def copy_worker_def list_update_same_conv)
    then show ?thesis by (rule idle)
  next
    case C_run
    show ?thesis
    proof (cases "dq s")
      case Nil
      show ?thesis
      proof (cases "done_loading s")
        case True
        then have "step e cfg offset sz (Copier j) s = s\<lparr>copiers := (copiers s)[j := C_done]\<rparr>"
          using C_run Nil nf assms(2) by (simp add: step_def copy_worker_def)
        then show ?thesis by (rule exit[OF C_run Nil True])
      next
        case False
        then have "step e cfg offset sz (Copier j) s = s"
          using C_run Nil nf assms(2) by (simp add: step_def copy_worker_def list_update_same_conv)
        then show ?thesis by (rule idle)
      qed
    next
      case (Cons ab rest)
      obtain a b where ab: "ab = (a, b)" by (cases ab)
      show ?thesis
      proof (cases "memcpy_ok e a b")
        case False
        then have "load_failed (step e cfg offset sz (Copier j) s)"
          using C_run Cons ab nf assms(2) by (simp add: step_def copy_worker_def)
        then show ?thesis using assms(1) by simp
      next
        case True
        have "(copiers s)[j := C_run] = copiers s"
          using C_run assms(2) by (simp add: list_update_same_conv)
        then have "step e cfg offset sz (Copier j) s =
         s\<lparr>cuda_buffer := copy_bytes s a b, dq := rest, trace := trace s @ [Memcpy a b]\<rparr>"
          using C_run Cons ab nf assms(2) True
          by (simp add: step_def copy_worker_def copy_bytes_def)
        moreover have "dq s = (a, b) # rest" using Cons ab by simp
        ultimately show ?thesis using copy[OF C_run] by blast
      qed
    qed
  qed
qed

lemma main_step_cases:
  obtains (idle) "step e cfg offset sz Main s = s"
  | (signal) "main_thread s = M_join_loaders" "\<forall>j<length (loaders s). loaders s ! j = L_done"
      "step e cfg offset sz Main s =
         s\<lparr>done_loading := True, trace := trace s @ [Notify_all], main_thread := M_join_copiers\<rparr>"
  | (joined) "main_thread s = M_join_copiers" "\<forall>j<length (copiers s). copiers s ! j = C_done"
      "step e cfg offset sz Main s = s\<lparr>main_thread := M_done\<rparr>"
proof (cases "main_thread s")
  case M_join_loaders
  show ?thesis
  proof (cases "list_all (\<lambda>w. w = L_done) (loaders s)")
    case True
    then have "\<forall>j<length (loaders s). loaders s ! j = L_done" by (simp add: list_all_length)
    moreover have "step e cfg offset sz Main s =
         s\<lparr>done_loading := True, trace := trace s @ [Notify_all], main_thread := M_join_copiers\<rparr>"
      using M_join_loaders True by (simp add: step_def main_step_def)
    ultimately show ?thesis using signal[OF M_join_loaders] by blast
  next
    case False
    then have "step e cfg offset sz Main s = s"
      using M_join_loaders by (simp add: step_def main_step_def)
    then show ?thesis by (rule idle)
  qed
next
  case M_join_copiers
  show ?thesis
  proof (cases "list_all (\<lambda>w. w = C_done) (copiers s)")
    case True
    then have "\<forall>j<length (copiers s). copiers s ! j = C_done" by (simp add: list_all_length)
    moreover have "step e cfg offset sz Main s = s\<lparr>main_thread := M_done\<rparr>"
      using M_join_copiers True by (simp add: step_def main_step_def)
    ultimately show ?thesis using joined[OF M_join_copiers] by blast
  next
    case False
    then have "step e cfg offset sz Main s = s"
      using M_join_copiers by (simp add: step_def main_step_def)
    then show ?thesis by (rule idle)
  qed
next
  case M_done
  then have "step e cfg offset sz Main s = s" by (simp add: step_def main_step_def)
  then show ?thesis by (rule idle)
qed

subsection \<open>Arithmetic of the strided blocks\<close>

lemma block_start_props:
  assumes "0 < STLOADER_BLOCK_SIZE cfg"
  shows "STLOADER_BLOCK_SIZE cfg dvd block_start cfg k"
    and "block_start cfg k div STLOADER_BLOCK_SIZE cfg = k div STLOADER_BLOCK_SIZE cfg"
    and "block_start cfg k \<le> k" and "k < block_start cfg k + STLOADER_BLOCK_SIZE cfg"
proof -
  let ?B = "STLOADER_BLOCK_SIZE cfg"
  have m: "k mod ?B < ?B" using assms by simp
  have e: "k div ?B * ?B + k mod ?B = k" by simp
  show "?B dvd block_start cfg k" by (simp add: block_start_def)
  show "block_start cfg k div ?B = k div ?B" using assms by (simp add: block_start_def)
  show "block_start cfg k \<le> k" by (simp add: block_start_def)
  show "k < block_start cfg k + ?B" using m e unfolding block_start_def by linarith
qed

lemma in_block_iff:
  assumes "0 < STLOADER_BLOCK_SIZE cfg" and "STLOADER_BLOCK_SIZE cfg dvd p" and "k < sz"
  shows "(p \<le> k \<and> k < block_end cfg sz p) \<longleftrightarrow> block_start cfg k = p"
proof -
  let ?B = "STLOADER_BLOCK_SIZE cfg"
  obtain m where p: "p = m * ?B" using assms(2) by (auto simp add: dvd_def mult.commute)
  have "(p \<le> k \<and> k < block_end cfg sz p) \<longleftrightarrow> (p \<le> k \<and> k < p + ?B)"
    using assms(3) by (auto simp add: block_end_def)
  also have "\<dots> \<longleftrightarrow> k div ?B = m"
  proof
    assume "p \<le> k \<and> k < p + ?B"
    then show "k div ?B = m" using p
      by (intro div_nat_eqI) (simp_all add: mult.commute)
  next
    assume "k div ?B = m"
    then have "block_start cfg k = p" using p by (simp add: block_start_def)
    then show "p \<le> k \<and> k < p + ?B" using block_start_props(3,4)[OF assms(1), of k] by simp
  qed
  also have "\<dots> \<longleftrightarrow> block_start cfg k = p"
    using p assms(1) by (auto simp add: block_start_def)
  finally show ?thesis .
qed

lemma stride_next:
  assumes "0 < (B::nat)" and "0 < T" and "B dvd p" and "B dvd q" and "p < q"
    and "(p div B) mod T = (q div B) mod T"
  shows "p + T * B \<le> q"
proof -
  obtain a where a: "p = a * B" using assms(3) by (auto simp add: dvd_def mult.commute)
  obtain c where c: "q = c * B" using assms(4) by (auto simp add: dvd_def mult.commute)
  have ac: "a < c" using assms(1,5) a c by simp
  have m: "a mod T = c mod T" using assms(1,6) a c by simp
  have "T dvd c - a" using mod_eq_dvd_iff_nat[of a c T] ac m by simp
  then have "T \<le> c - a" using ac by (intro dvd_imp_le) simp_all
  then have "a + T \<le> c" using ac by simp
  then have "(a + T) * B \<le> c * B" by (intro mult_le_mono1)
  then show ?thesis using a c by (simp add: algebra_simps)
qed

lemma stride_aligned:
  assumes "0 < (B::nat)" and "B dvd p" and "(p div B) mod T = j"
  shows "B dvd p + T * B" and "((p + T * B) div B) mod T = j"
  using assms by simp_all

subsection \<open>The queue invariant is kept by every step\<close>

lemma point_ok_cong:
  assumes "wpos (loaders s' ! owner cfg k) = wpos (loaders s ! owner cfg k)"
    and "trace s' = trace s" and "dq s' = dq s"
  shows "point_ok cfg s' k = point_ok cfg s k"
  unfolding point_ok_def assms by (rule refl)

lemma good_q_opened:
  assumes g: "good_q cfg offset sz tr0 nc s" and j: "j < length (loaders s)"
    and w: "loaders s ! j = L_open p"
  shows "good_q cfg offset sz tr0 nc (s\<lparr>loaders := (loaders s)[j := L_loop p]\<rparr>)"
proof -
  let ?s' = "s\<lparr>loaders := (loaders s)[j := L_loop p]\<rparr>"
  have wp: "wpos (loaders ?s' ! i) = wpos (loaders s ! i)" if "i < length (loaders s)" for i
    using that w by (cases "i = j") simp_all
  have nd: "\<not> done_loading s" using g j w by (auto simp add: good_q_def)
  have "aligned cfg ?s'" using g wp by (simp add: good_q_def aligned_def)
  moreover have "\<forall>k < sz. owner cfg k < length (loaders ?s') \<and> point_ok cfg ?s' k \<and>
         count_reads (trace ?s') (offset + k) = count_reads tr0 (offset + k) + count_pushes (trace ?s') k"
  proof (intro allI impI)
    fix k assume "k < sz"
    then have o: "owner cfg k < length (loaders s)" and pk: "point_ok cfg s k"
      and c: "count_reads (trace s) (offset + k) = count_reads tr0 (offset + k) + count_pushes (trace s) k"
      using g by (simp_all add: good_q_def)
    have "point_ok cfg ?s' k = point_ok cfg s k"
      by (rule point_ok_cong) (use wp[OF o] in simp_all)
    then show "owner cfg k < length (loaders ?s') \<and> point_ok cfg ?s' k \<and>
         count_reads (trace ?s') (offset + k) = count_reads tr0 (offset + k) + count_pushes (trace ?s') k"
      using o pk c by simp
  qed
  ultimately show ?thesis using g nd by (simp add: good_q_def)
qed

lemma good_q_finish:
  assumes g: "good_q cfg offset sz tr0 nc s" and j: "j < length (loaders s)"
    and w: "loaders s ! j = L_loop p" and p: "\<not> p < sz"
    and B: "0 < STLOADER_BLOCK_SIZE cfg"
  shows "good_q cfg offset sz tr0 nc (s\<lparr>loaders := (loaders s)[j := L_done]\<rparr>)"
proof -
  let ?s' = "s\<lparr>loaders := (loaders s)[j := L_done]\<rparr>"
  have nd: "\<not> done_loading s" using g j w by (auto simp add: good_q_def)
  have "aligned cfg ?s'" unfolding aligned_def
  proof (intro allI impI)
    fix i q assume i: "i < length (loaders ?s')" and q: "wpos (loaders ?s' ! i) = Some q"
    then have "i \<noteq> j" using j by auto
    then have "wpos (loaders s ! i) = Some q" using q by simp
    then show "STLOADER_BLOCK_SIZE cfg dvd q \<and>
        (q div STLOADER_BLOCK_SIZE cfg) mod STLOADER_THREADS cfg = i"
      using g i by (simp add: good_q_def aligned_def)
  qed
  moreover have "\<forall>k < sz. owner cfg k < length (loaders ?s') \<and> point_ok cfg ?s' k \<and>
         count_reads (trace ?s') (offset + k) = count_reads tr0 (offset + k) + count_pushes (trace ?s') k"
  proof (intro allI impI)
    fix k assume k: "k < sz"
    then have o: "owner cfg k < length (loaders s)" and pk: "point_ok cfg s k"
      and c: "count_reads (trace s) (offset + k) = count_reads tr0 (offset + k) + count_pushes (trace s) k"
      using g by (simp_all add: good_q_def)
    have "point_ok cfg ?s' k"
    proof (cases "owner cfg k = j")
      case True
      have "block_start cfg k < p" using block_start_props(3)[OF B, of k] k p by simp
      then show ?thesis using pk True w j by (simp add: point_ok_def)
    next
      case False
      then have "point_ok cfg ?s' k = point_ok cfg s k"
        by (intro point_ok_cong) simp_all
      then show ?thesis using pk by simp
    qed
    then show "owner cfg k < length (loaders ?s') \<and> point_ok cfg ?s' k \<and>
         count_reads (trace ?s') (offset + k) = count_reads tr0 (offset + k) + count_pushes (trace ?s') k"
      using o c by simp
  qed
  ultimately show ?thesis using g nd by (simp add: good_q_def)
qed

lemma good_q_block:
  assumes g: "good_q cfg offset sz tr0 nc s" and j: "j < length (loaders s)"
    and w: "loaders s ! j = L_loop p" and p: "p < sz"
    and B: "0 < STLOADER_BLOCK_SIZE cfg" and T: "0 < STLOADER_THREADS cfg"
  shows "good_q cfg offset sz tr0 nc
     (s\<lparr>load_buffer := lb,
        dq := dq s @ [(p, block_end cfg sz p)],
        trace := trace s @ [Pread (offset + p) (block_end cfg sz p - p) p, Push p (block_end cfg sz p), Notify_one],
        loaders := (loaders s)[j := L_loop (p + STLOADER_THREADS cfg * STLOADER_BLOCK_SIZE cfg)]\<rparr>)"
proof -
  let ?B = "STLOADER_BLOCK_SIZE cfg" and ?T = "STLOADER_THREADS cfg"
  let ?b = "block_end cfg sz p"
  let ?s' = "s\<lparr>load_buffer := lb, dq := dq s @ [(p, ?b)],
        trace := trace s @ [Pread (offset + p) (?b - p) p, Push p ?b, Notify_one],
        loaders := (loaders s)[j := L_loop (p + ?T * ?B)]\<rparr>"
  have al: "aligned cfg s" using g by (simp add: good_q_def)
  have pa: "?B dvd p" "(p div ?B) mod ?T = j" using al j w by (auto simp add: aligned_def)
  have nd: "\<not> done_loading s" using g j w by (auto simp add: good_q_def)
  have pb: "p < ?b" "?b \<le> sz" using p B by (auto simp add: block_end_def)
  have "aligned cfg ?s'" unfolding aligned_def
  proof (intro allI impI)
    fix i q assume i: "i < length (loaders ?s')" and q: "wpos (loaders ?s' ! i) = Some q"
    show "?B dvd q \<and> (q div ?B) mod ?T = i"
    proof (cases "i = j")
      case True
      then have "q = p + ?T * ?B" using q j by simp
      then show ?thesis using stride_aligned[OF B pa] True by simp
    next
      case False
      then have "wpos (loaders s ! i) = Some q" using q by simp
      then show ?thesis using al i by (simp add: aligned_def)
    qed
  qed
  moreover have "\<forall>k < sz. owner cfg k < length (loaders ?s') \<and> point_ok cfg ?s' k \<and>
         count_reads (trace ?s') (offset + k) = count_reads tr0 (offset + k) + count_pushes (trace ?s') k"
  proof (intro allI impI)
    fix k assume k: "k < sz"
    then have o: "owner cfg k < length (loaders s)" and pk: "point_ok cfg s k"
      and c: "count_reads (trace s) (offset + k) = count_reads tr0 (offset + k) + count_pushes (trace s) k"
      using g by (simp_all add: good_q_def)
    define ind :: nat where "ind = (if p \<le> k \<and> k < ?b then 1 else 0)"
    have ib: "(p \<le> k \<and> k < ?b) \<longleftrightarrow> block_start cfg k = p"
      by (rule in_block_iff[OF B pa(1) k])
    have np: "count_pushes (trace ?s') k = count_pushes (trace s) k + ind"
      by (simp add: count_pushes_def ind_def)
    have nq: "queued (dq ?s') k = queued (dq s) k + ind"
      by (simp add: queued_def ind_def)
    have nc: "count_copies (trace ?s') k = count_copies (trace s) k"
      by (simp add: count_copies_def)
    have nr: "count_reads (trace ?s') (offset + k) = count_reads (trace s) (offset + k) + ind"
      using pb by (auto simp add: count_reads_def ind_def)
    have "point_ok cfg ?s' k"
    proof (cases "owner cfg k = j")
      case True
      have bs: "?B dvd block_start cfg k" "(block_start cfg k div ?B) mod ?T = j"
        using block_start_props(1,2)[OF B, of k] True by (simp_all add: owner_def)
      consider "block_start cfg k = p" | "p < block_start cfg k" | "block_start cfg k < p" by linarith
      then show ?thesis
      proof cases
        case 1
        then have "ind = 1" using ib by (simp add: ind_def)
        then show ?thesis using pk True w j 1 np nq nc B T by (simp add: point_ok_def)
      next
        case 2
        then have "ind = 0" using ib by (auto simp add: ind_def)
        moreover have "p + ?T * ?B \<le> block_start cfg k"
          using stride_next[OF B T pa(1) bs(1) 2] pa(2) bs(2) by simp
        ultimately show ?thesis using pk True w j 2 np nq nc by (simp add: point_ok_def)
      next
        case 3
        then have "ind = 0" using ib by (auto simp add: ind_def)
        then show ?thesis using pk True w j 3 np nq nc by (simp add: point_ok_def)
      qed
    next
      case False
      have "block_start cfg k \<noteq> p"
      proof
        assume "block_start cfg k = p"
        then have "owner cfg k = j" using pa(2) block_start_props(2)[OF B, of k] by (simp add: owner_def)
        then show False using False by simp
      qed
      then have "ind = 0" using ib by (auto simp add: ind_def)
      then show ?thesis using pk False np nq nc by (simp add: point_ok_def split: option.splits)
    qed
    then show "owner cfg k < length (loaders ?s') \<and> point_ok cfg ?s' k \<and>
         count_reads (trace ?s') (offset + k) = count_reads tr0 (offset + k) + count_pushes (trace ?s') k"
      using o c np nr by simp
  qed
  moreover have "\<forall>(a, b) \<in> set (pushed (trace ?s')).
      a < sz \<and> ?B dvd a \<and> b = block_end cfg sz a"
    using g p pa(1) by (auto simp add: good_q_def pushed_append)
  moreover have "\<not> (\<exists>i<length (copiers s). copiers s ! i = C_done)"
    using g nd by (auto simp add: good_q_def)
  moreover have "nc = 0 \<longrightarrow> (\<forall>k. count_copies (trace ?s') k = 0)"
    using g by (simp add: good_q_def count_copies_def)
  ultimately show ?thesis using g nd by (simp add: good_q_def)
qed

lemma good_q_exit:
  assumes g: "good_q cfg offset sz tr0 nc s" and j: "j < length (copiers s)"
    and w: "copiers s ! j = C_run" and q: "dq s = []" and d: "done_loading s"
  shows "good_q cfg offset sz tr0 nc (s\<lparr>copiers := (copiers s)[j := C_done]\<rparr>)"
proof -
  let ?s' = "s\<lparr>copiers := (copiers s)[j := C_done]\<rparr>"
  have nm: "main_thread s \<noteq> M_done" using g j w by (auto simp add: good_q_def)
  have "\<forall>k < sz. owner cfg k < length (loaders ?s') \<and> point_ok cfg ?s' k \<and>
         count_reads (trace ?s') (offset + k) = count_reads tr0 (offset + k) + count_pushes (trace ?s') k"
  proof (intro allI impI)
    fix k assume "k < sz"
    then have o: "owner cfg k < length (loaders s)" and pk: "point_ok cfg s k"
      and c: "count_reads (trace s) (offset + k) = count_reads tr0 (offset + k) + count_pushes (trace s) k"
      using g by (simp_all add: good_q_def)
    have "point_ok cfg ?s' k = point_ok cfg s k"
      by (rule point_ok_cong) simp_all
    then show "owner cfg k < length (loaders ?s') \<and> point_ok cfg ?s' k \<and>
         count_reads (trace ?s') (offset + k) = count_reads tr0 (offset + k) + count_pushes (trace ?s') k"
      using o pk c by simp
  qed
  moreover have "aligned cfg ?s'" using g by (simp add: good_q_def aligned_def)
  ultimately show ?thesis using g q d nm by (simp add: good_q_def)
qed

lemma good_q_copy:
  assumes g: "good_q cfg offset sz tr0 nc s" and j: "j < length (copiers s)"
    and q: "dq s = (a, b) # rest"
  shows "good_q cfg offset sz tr0 nc (s\<lparr>cuda_buffer := cb, dq := rest, trace := trace s @ [Memcpy a b]\<rparr>)"
proof -
  let ?s' = "s\<lparr>cuda_buffer := cb, dq := rest, trace := trace s @ [Memcpy a b]\<rparr>"
  have none_done: "\<not> (\<exists>i<length (copiers s). copiers s ! i = C_done)"
    using g q by (auto simp add: good_q_def)
  have ncpos: "nc \<noteq> 0" using g j by (auto simp add: good_q_def)
  have "\<forall>k < sz. owner cfg k < length (loaders ?s') \<and> point_ok cfg ?s' k \<and>
         count_reads (trace ?s') (offset + k) = count_reads tr0 (offset + k) + count_pushes (trace ?s') k"
  proof (intro allI impI)
    fix k assume "k < sz"
    then have o: "owner cfg k < length (loaders s)" and pk: "point_ok cfg s k"
      and c: "count_reads (trace s) (offset + k) = count_reads tr0 (offset + k) + count_pushes (trace s) k"
      using g by (simp_all add: good_q_def)
    define ind :: nat where "ind = (if a \<le> k \<and> k < b then 1 else 0)"
    have np: "count_pushes (trace ?s') k = count_pushes (trace s) k"
      by (simp add: count_pushes_def)
    have nq: "queued (dq s) k = queued (dq ?s') k + ind"
      using q by (simp add: queued_def ind_def)
    have ncp: "count_copies (trace ?s') k = count_copies (trace s) k + ind"
      by (simp add: count_copies_def ind_def)
    have nr: "count_reads (trace ?s') (offset + k) = count_reads (trace s) (offset + k)"
      by (simp add: count_reads_def)
    have "point_ok cfg ?s' k"
      using pk np nq ncp by (auto simp add: point_ok_def split: option.splits if_splits)
    then show "owner cfg k < length (loaders ?s') \<and> point_ok cfg ?s' k \<and>
         count_reads (trace ?s') (offset + k) = count_reads tr0 (offset + k) + count_pushes (trace ?s') k"
      using o c np nr by simp
  qed
  moreover have "aligned cfg ?s'" using g by (simp add: good_q_def aligned_def)
  moreover have "pushed (trace ?s') = pushed (trace s)" by (simp add: pushed_append)
  ultimately show ?thesis using g none_done ncpos by (auto simp add: good_q_def)
qed

lemma good_q_signal:
  assumes g: "good_q cfg offset sz tr0 nc s" and m: "main_thread s = M_join_loaders"
    and l: "\<forall>j<length (loaders s). loaders s ! j = L_done"
  shows "good_q cfg offset sz tr0 nc
     (s\<lparr>done_loading := True, trace := trace s @ [Notify_all], main_thread := M_join_copiers\<rparr>)"
proof -
  let ?s' = "s\<lparr>done_loading := True, trace := trace s @ [Notify_all], main_thread := M_join_copiers\<rparr>"
  have nd: "\<not> done_loading s" using g m by (simp add: good_q_def)
  then have none_done: "\<not> (\<exists>i<length (copiers s). copiers s ! i = C_done)"
    using g by (auto simp add: good_q_def)
  have "\<forall>k < sz. owner cfg k < length (loaders ?s') \<and> point_ok cfg ?s' k \<and>
         count_reads (trace ?s') (offset + k) = count_reads tr0 (offset + k) + count_pushes (trace ?s') k"
  proof (intro allI impI)
    fix k assume "k < sz"
    then have o: "owner cfg k < length (loaders s)" and pk: "point_ok cfg s k"
      and c: "count_reads (trace s) (offset + k) = count_reads tr0 (offset + k) + count_pushes (trace s) k"
      using g by (simp_all add: good_q_def)
    have np: "count_pushes (trace ?s') k = count_pushes (trace s) k"
      by (simp add: count_pushes_def)
    have ncp: "count_copies (trace ?s') k = count_copies (trace s) k"
      by (simp add: count_copies_def)
    have "point_ok cfg ?s' k"
      using pk np ncp by (simp add: point_ok_def split: option.splits)
    then show "owner cfg k < length (loaders ?s') \<and> point_ok cfg ?s' k \<and>
         count_reads (trace ?s') (offset + k) = count_reads tr0 (offset + k) + count_pushes (trace ?s') k"
      using o c by (simp add: count_reads_def count_pushes_def)
  qed
  moreover have "aligned cfg ?s'" using g by (simp add: good_q_def aligned_def)
  moreover have "pushed (trace ?s') = pushed (trace s)" by (simp add: pushed_append)
  moreover have "nc = 0 \<longrightarrow> (\<forall>k. count_copies (trace ?s') k = 0)"
    using g by (simp add: good_q_def count_copies_def)
  ultimately show ?thesis using g none_done l by (auto simp add: good_q_def)
qed

lemma good_q_joined:
  assumes g: "good_q cfg offset sz tr0 nc s" and m: "main_thread s = M_join_copiers"
    and l: "\<forall>j<length (copiers s). copiers s ! j = C_done"
  shows "good_q cfg offset sz tr0 nc (s\<lparr>main_thread := M_done\<rparr>)"
proof -
  let ?s' = "s\<lparr>main_thread := M_done\<rparr>"
  have "\<forall>k < sz. owner cfg k < length (loaders ?s') \<and> point_ok cfg ?s' k \<and>
         count_reads (trace ?s') (offset + k) = count_reads tr0 (offset + k) + count_pushes (trace ?s') k"
  proof (intro allI impI)
    fix k assume "k < sz"
    then have o: "owner cfg k < length (loaders s)" and pk: "point_ok cfg s k"
      and c: "count_reads (trace s) (offset + k) = count_reads tr0 (offset + k) + count_pushes (trace s) k"
      using g by (simp_all add: good_q_def)
    have "point_ok cfg ?s' k = point_ok cfg s k"
      by (rule point_ok_cong) simp_all
    then show "owner cfg k < length (loaders ?s') \<and> point_ok cfg ?s' k \<and>
         count_reads (trace ?s') (offset + k) = count_reads tr0 (offset + k) + count_pushes (trace ?s') k"
      using o pk c by simp
  qed
  moreover have "aligned cfg ?s'" using g by (simp add: good_q_def aligned_def)
  ultimately show ?thesis using g m l by (simp add: good_q_def)
qed

lemma good_q_step:
  assumes g: "good_q cfg offset sz tr0 nc s"
    and B: "0 < STLOADER_BLOCK_SIZE cfg" and T: "0 < STLOADER_THREADS cfg"
    and nf: "\<not> load_failed (step e cfg offset sz t s)"
  shows "good_q cfg offset sz tr0 nc (step e cfg offset sz t s)"
proof (cases t)
  case (Loader j)
  show ?thesis
  proof (cases "j < length (loaders s)")
    case False
    then show ?thesis using g Loader by (simp add: step_def)
  next
    case True
    from nf Loader have nf': "\<not> load_failed (step e cfg offset sz (Loader j) s)" by simp
    from nf' True have "good_q cfg offset sz tr0 nc (step e cfg offset sz (Loader j) s)"
    proof (cases rule: loader_step_cases)
      case idle
      then show ?thesis using g by simp
    next
      case (opened p)
      then show ?thesis using good_q_opened[OF g True] by simp
    next
      case (finish p)
      then show ?thesis using good_q_finish[OF g True _ _ B] by simp
    next
      case (block p)
      then show ?thesis using good_q_block[OF g True _ _ B T] by simp
    qed
    then show ?thesis using Loader by simp
  qed
next
  case (Copier j)
  show ?thesis
  proof (cases "j < length (copiers s)")
    case False
    then show ?thesis using g Copier by (simp add: step_def)
  next
    case True
    from nf Copier have nf': "\<not> load_failed (step e cfg offset sz (Copier j) s)" by simp
    from nf' True have "good_q cfg offset sz tr0 nc (step e cfg offset sz (Copier j) s)"
    proof (cases rule: copier_step_cases)
      case idle
      then show ?thesis using g by simp
    next
      case exit
      then show ?thesis using good_q_exit[OF g True] by simp
    next
      case (copy a b rest)
      then show ?thesis using good_q_copy[OF g True] by simp
    qed
    then show ?thesis using Copier by simp
  qed
next
  case Main
  have "good_q cfg offset sz tr0 nc (step e cfg offset sz Main s)"
  proof (cases rule: main_step_cases[of e cfg offset sz s])
    case idle
    then show ?thesis using g by simp
  next
    case signal
    then show ?thesis using good_q_signal[OF g] by simp
  next
    case joined
    then show ?thesis using good_q_joined[OF g] by simp
  qed
  then show ?thesis using Main by simp
qed

lemma good_q_fold:
  assumes "good_q cfg offset sz tr0 nc s"
    and "0 < STLOADER_BLOCK_SIZE cfg" and "0 < STLOADER_THREADS cfg"
    and "\<not> load_failed (fold (step e cfg offset sz) sched s)"
  shows "good_q cfg offset sz tr0 nc (fold (step e cfg offset sz) sched s)"
  using assms
proof (induction sched arbitrary: s)
  case Nil
  then show ?case by simp
next
  case (Cons t sched)
  have "\<not> load_failed (step e cfg offset sz t s)"
    using Cons.prems(4) load_failed_fold_mono by fastforce
  then have "good_q cfg offset sz tr0 nc (step e cfg offset sz t s)"
    using good_q_step Cons.prems by blast
  then show ?case using Cons by simp
qed

lemma spawn_loaders_length:
  assumes "i < STLOADER_THREADS cfg" and "i * STLOADER_BLOCK_SIZE cfg < sz"
  shows "i < length (loaders (spawn cfg sz lb cb tr))"
proof -
  let ?P = "\<lambda>i. i * STLOADER_BLOCK_SIZE cfg < sz"
  have "[0..<STLOADER_THREADS cfg] = [0..<Suc i] @ [Suc i..<STLOADER_THREADS cfg]"
    using upt_add_eq_append[of 0 "Suc i" "STLOADER_THREADS cfg - Suc i"] assms(1) by simp
  moreover have "\<forall>x \<in> set [0..<Suc i]. ?P x"
  proof
    fix x assume "x \<in> set [0..<Suc i]"
    then have "x \<le> i" by auto
    then have "x * STLOADER_BLOCK_SIZE cfg \<le> i * STLOADER_BLOCK_SIZE cfg"
      by (rule mult_le_mono1)
    then show "?P x" using assms(2) by (rule le_less_trans)
  qed
  ultimately have "takeWhile ?P [0..<STLOADER_THREADS cfg] =
      [0..<Suc i] @ takeWhile ?P [Suc i..<STLOADER_THREADS cfg]"
    by (simp only: takeWhile_append2)
  then show ?thesis by (simp add: spawn_def)
qed

lemma spawn_loaders_nth:
  assumes "j < length (loaders (spawn cfg sz lb cb tr))"
  shows "loaders (spawn cfg sz lb cb tr) ! j = L_open (j * STLOADER_BLOCK_SIZE cfg)"
    and "j < STLOADER_THREADS cfg"
proof -
  let ?P = "\<lambda>i. i * STLOADER_BLOCK_SIZE cfg < sz"
  let ?tw = "takeWhile ?P [0..<STLOADER_THREADS cfg]"
  have j: "j < length ?tw" using assms by (simp add: spawn_def)
  have "length ?tw \<le> length [0..<STLOADER_THREADS cfg]" by (rule length_takeWhile_le)
  then show jt: "j < STLOADER_THREADS cfg" using j by simp
  have "?tw ! j = [0..<STLOADER_THREADS cfg] ! j" using j by (rule takeWhile_nth)
  then have "?tw ! j = j" using jt by simp
  then show "loaders (spawn cfg sz lb cb tr) ! j = L_open (j * STLOADER_BLOCK_SIZE cfg)"
    using j by (simp add: spawn_def)
qed

lemma good_q_spawn:
  assumes B: "0 < STLOADER_BLOCK_SIZE cfg" and T: "0 < STLOADER_THREADS cfg"
    and tr: "only_reads tr0"
  shows "good_q cfg offset sz tr0 (length (copiers (spawn cfg sz lb cb tr0))) (spawn cfg sz lb cb tr0)"
proof -
  let ?B = "STLOADER_BLOCK_SIZE cfg" and ?T = "STLOADER_THREADS cfg"
  let ?s = "spawn cfg sz lb cb tr0"
  have tr_s: "trace ?s = tr0" and dq_s: "dq ?s = []" by (simp_all add: spawn_def)
  have "aligned cfg ?s" unfolding aligned_def
  proof (intro allI impI)
    fix j p assume j: "j < length (loaders ?s)" and p: "wpos (loaders ?s ! j) = Some p"
    have "p = j * ?B" using spawn_loaders_nth(1)[OF j] p by simp
    moreover have "j < ?T" using spawn_loaders_nth(2)[OF j] .
    ultimately show "?B dvd p \<and> (p div ?B) mod ?T = j" using B by simp
  qed
  moreover have "\<forall>k < sz. owner cfg k < length (loaders ?s) \<and> point_ok cfg ?s k \<and>
         count_reads (trace ?s) (offset + k) = count_reads tr0 (offset + k) + count_pushes (trace ?s) k"
  proof (intro allI impI)
    fix k assume k: "k < sz"
    let ?i = "owner cfg k"
    have it: "?i < ?T" using T by (simp add: owner_def)
    have "?i \<le> k div ?B" by (simp add: owner_def)
    then have le: "?i * ?B \<le> block_start cfg k" unfolding block_start_def by (intro mult_le_mono1)
    then have "?i * ?B < sz" using block_start_props(3)[OF B, of k] k by simp
    then have o: "?i < length (loaders ?s)" using it by (intro spawn_loaders_length)
    have "wpos (loaders ?s ! ?i) = Some (?i * ?B)" using spawn_loaders_nth(1)[OF o] by simp
    then have "point_ok cfg ?s k"
      using le only_reads_counts[OF tr] by (simp add: point_ok_def tr_s dq_s queued_def)
    then show "owner cfg k < length (loaders ?s) \<and> point_ok cfg ?s k \<and>
         count_reads (trace ?s) (offset + k) = count_reads tr0 (offset + k) + count_pushes (trace ?s) k"
      using o only_reads_counts(1)[OF tr] by (simp add: tr_s)
  qed
  moreover have "\<not> load_failed ?s" "\<not> done_loading ?s" "main_thread ?s = M_join_loaders"
    "\<forall>j<length (copiers ?s). copiers ?s ! j = C_run"
    by (auto simp add: spawn_def split: option.splits)
  ultimately show ?thesis
    using only_reads_counts[OF tr] by (auto simp add: good_q_def tr_s)
qed

subsection \<open>A block size of zero, and a segment of no bytes\<close>

lemma stuck_step:
  assumes g: "stuck s" and B: "STLOADER_BLOCK_SIZE cfg = 0" and sz: "0 < sz"
    and nf: "\<not> load_failed (step e cfg offset sz t s)"
  shows "stuck (step e cfg offset sz t s)"
proof (cases t)
  case (Loader j)
  show ?thesis
  proof (cases "j < length (loaders s)")
    case False
    then show ?thesis using g Loader by (simp add: step_def)
  next
    case True
    from nf Loader have nf': "\<not> load_failed (step e cfg offset sz (Loader j) s)" by simp
    have w0: "wpos (loaders s ! j) = Some 0" using g True by (simp add: stuck_def)
    from nf' True have "stuck (step e cfg offset sz (Loader j) s)"
    proof (cases rule: loader_step_cases)
      case idle
      then show ?thesis using g by simp
    next
      case (opened p)
      then show ?thesis using g w0 True by (auto simp add: stuck_def nth_list_update)
    next
      case (finish p)
      then show ?thesis using w0 sz by simp
    next
      case (block p)
      then show ?thesis using g w0 B True by (auto simp add: stuck_def nth_list_update)
    qed
    then show ?thesis using Loader by simp
  qed
next
  case (Copier j)
  show ?thesis
  proof (cases "j < length (copiers s)")
    case False
    then show ?thesis using g Copier by (simp add: step_def)
  next
    case True
    from nf Copier have nf': "\<not> load_failed (step e cfg offset sz (Copier j) s)" by simp
    from nf' True have "stuck (step e cfg offset sz (Copier j) s)"
    proof (cases rule: copier_step_cases)
      case idle
      then show ?thesis using g by simp
    next
      case exit
      then show ?thesis using g by (simp add: stuck_def)
    next
      case (copy a b rest)
      then show ?thesis using g by (simp add: stuck_def)
    qed
    then show ?thesis using Copier by simp
  qed
next
  case Main
  have "stuck (step e cfg offset sz Main s)"
  proof (cases rule: main_step_cases[of e cfg offset sz s])
    case idle
    then show ?thesis using g by simp
  next
    case signal
    have l: "0 < length (loaders s)" using g by (simp add: stuck_def)
    have "loaders s ! 0 = L_done" using signal(2) l by blast
    moreover have "wpos (loaders s ! 0) = Some 0" using g l unfolding stuck_def by blast
    ultimately show ?thesis by simp
  next
    case joined
    then show ?thesis using g by (simp add: stuck_def)
  qed
  then show ?thesis using Main by simp
qed

lemma stuck_fold:
  assumes "stuck s" and "STLOADER_BLOCK_SIZE cfg = 0" and "0 < sz"
    and "\<not> load_failed (fold (step e cfg offset sz) sched s)"
  shows "stuck (fold (step e cfg offset sz) sched s)"
  using assms
proof (induction sched arbitrary: s)
  case Nil
  then show ?case by simp
next
  case (Cons t sched)
  have "\<not> load_failed (step e cfg offset sz t s)"
    using Cons.prems(4) load_failed_fold_mono by fastforce
  then have "stuck (step e cfg offset sz t s)"
    using stuck_step Cons.prems by blast
  then show ?case using Cons by simp
qed

lemma stuck_spawn:
  assumes "STLOADER_BLOCK_SIZE cfg = 0" and "0 < sz" and "0 < STLOADER_THREADS cfg"
  shows "stuck (spawn cfg sz lb cb tr)"
proof -
  have l: "0 < length (loaders (spawn cfg sz lb cb tr))"
    using assms by (intro spawn_loaders_length) simp_all
  have "wpos (loaders (spawn cfg sz lb cb tr) ! j) = Some 0"
    if "j < length (loaders (spawn cfg sz lb cb tr))" for j
    using spawn_loaders_nth(1)[OF that] assms(1) by simp
  then show ?thesis using l by (auto simp add: stuck_def) (simp_all add: spawn_def)
qed

text \<open>A pipeline that finishes without failure has a positive block size or an empty segment.\<close>

lemma finished_block_size:
  assumes "main_thread (fold (step e cfg offset sz) sched (spawn cfg sz lb cb tr)) = M_done"
    and "\<not> load_failed (fold (step e cfg offset sz) sched (spawn cfg sz lb cb tr))"
    and "0 < STLOADER_THREADS cfg"
  shows "0 < STLOADER_BLOCK_SIZE cfg \<or> sz = 0"
proof (rule ccontr)
  assume "\<not> (0 < STLOADER_BLOCK_SIZE cfg \<or> sz = 0)"
  then have b: "STLOADER_BLOCK_SIZE cfg = 0" and s: "0 < sz" by simp_all
  from stuck_fold[OF stuck_spawn[OF b s assms(3)] b s assms(2)]
  have "main_thread (fold (step e cfg offset sz) sched (spawn cfg sz lb cb tr)) = M_join_loaders"
    by (simp add: stuck_def)
  then show False using assms(1) by simp
qed

text \<open>Without read workers nothing is pushed.\<close>

lemma no_loaders_step:
  assumes "loaders s = []"
  shows "loaders (step e cfg offset sz t s) = [] \<and> pushed (trace (step e cfg offset sz t s)) = pushed (trace s)"
  using assms
  by (auto simp add: step_def copy_worker_def main_step_def pushed_append Let_def
      split: tid.splits cworker.splits list.splits mthread.splits)

lemma no_loaders_fold:
  assumes "loaders s = []"
  shows "pushed (trace (fold (step e cfg offset sz) sched s)) = pushed (trace s)"
  using assms
proof (induction sched arbitrary: s)
  case Nil
  then show ?case by simp
next
  case (Cons t sched)
  then show ?case using no_loaders_step[OF Cons.prems, of e cfg offset sz t] by simp
qed

subsection \<open>The chunk readers\<close>

lemma read_failed_mono:
  "read_failed s \<Longrightarrow> read_failed (read_thread e offset sz chunk_size i s)"
  by (simp add: read_thread_def Let_def split: option.splits)

lemma read_failed_fold_mono:
  "read_failed s \<Longrightarrow> read_failed (fold (read_thread e offset sz chunk_size) sched s)"
  by (induction sched arbitrary: s) (simp_all add: read_failed_mono)

lemma in_chunk_iff:
  assumes "0 < chunk_size" and "k < sz"
  shows "chunk_of chunk_size k = i \<longleftrightarrow>
    i * chunk_size \<le> k \<and> k < min (i * chunk_size + chunk_size) sz"
proof
  assume "chunk_of chunk_size k = i"
  then have i: "i = k div chunk_size" by (simp add: chunk_of_def)
  have "k < chunk_size + k div chunk_size * chunk_size"
    by (rule dividend_less_div_times[OF assms(1)])
  moreover have "k div chunk_size * chunk_size \<le> k" by simp
  ultimately show "i * chunk_size \<le> k \<and> k < min (i * chunk_size + chunk_size) sz"
    using assms(2) unfolding i min_def by (auto simp only: split: if_splits)
next
  assume a: "i * chunk_size \<le> k \<and> k < min (i * chunk_size + chunk_size) sz"
  have "k div chunk_size = i"
    by (rule div_nat_eqI) (use a in \<open>simp_all add: mult.commute\<close>)
  then show "chunk_of chunk_size k = i" by (simp add: chunk_of_def)
qed

lemma good_r_step:
  assumes g: "good_r e offset sz chunk_size n s" and cs: "0 < chunk_size \<or> sz = 0"
    and nf: "\<not> read_failed (read_thread e offset sz chunk_size i s)"
  shows "good_r e offset sz chunk_size n (read_thread e offset sz chunk_size i s)"
proof (cases "i < length (readers s) \<and> \<not> readers s ! i")
  case False
  then have "read_thread e offset sz chunk_size i s = s" by (auto simp add: read_thread_def)
  then show ?thesis using g by simp
next
  case True
  let ?start = "i * chunk_size"
  let ?end = "min (?start + chunk_size) sz"
  let ?s1 = "s\<lparr>readers := (readers s)[i := True]\<rparr>"
  have il: "i < length (readers s)" and ni: "\<not> readers s ! i" using True by simp_all
  have rd: "readers ?s1 ! j = (if j = i then True else readers s ! j)" if "j < length (readers s)" for j
    using that il by (simp add: nth_list_update)
  show ?thesis
  proof (cases "?start \<ge> ?end")
    case empty: True
    then have eq: "read_thread e offset sz chunk_size i s = ?s1"
      using True by (simp add: read_thread_def Let_def)
    have no: "chunk_of chunk_size k \<noteq> i" if "k < sz" for k
    proof
      assume c: "chunk_of chunk_size k = i"
      have "0 < chunk_size" using cs that by auto
      from in_chunk_iff[OF this that, of i] c empty show False
        unfolding min_def by (auto split: if_splits)
    qed
    have "readers ?s1 ! chunk_of chunk_size k = readers s ! chunk_of chunk_size k" if "k < sz" for k
      using no[OF that] by simp
    then show ?thesis using g unfolding eq by (simp add: good_r_def)
  next
    case nonempty: False
    then have ssz: "?start < sz" and cpos: "0 < chunk_size" by (auto simp add: min_def split: if_splits)
    show ?thesis
    proof (cases "file_bytes e")
      case None
      then have "read_failed (read_thread e offset sz chunk_size i s)"
        using True nonempty by (simp add: read_thread_def Let_def)
      then show ?thesis using nf by simp
    next
      case (Some f)
      then have f: "file_of e = f" by (simp add: file_of_def)
      let ?n = "?end - ?start"
      let ?got = "pread f (offset + ?start) ?n"
      let ?s' = "?s1\<lparr>rbuffer := blit (rbuffer ?s1) ?start ?got,
                      read_failed := (read_failed ?s1 \<or> length ?got \<noteq> ?n),
                      rtrace := rtrace ?s1 @ [Pread (offset + ?start) ?n ?start]\<rparr>"
      have eq: "read_thread e offset sz chunk_size i s = ?s'"
        using True nonempty Some by (simp add: read_thread_def Let_def)
      have len: "length ?got = ?n" and nfs: "\<not> read_failed s" using nf unfolding eq by simp_all
      have inr: "(?start \<le> k \<and> k < ?start + ?n) \<longleftrightarrow> chunk_of chunk_size k = i" if "k < sz" for k
        using in_chunk_iff[OF cpos that, of i] nonempty by auto
      have "only_reads (rtrace ?s')" using g by (auto simp add: good_r_def only_reads_def)
      moreover have "\<forall>k < sz. count_reads (rtrace ?s') (offset + k) =
          (if readers ?s' ! chunk_of chunk_size k then 1 else 0)"
      proof (intro allI impI)
        fix k assume k: "k < sz"
        have c: "count_reads (rtrace s) (offset + k) = (if readers s ! chunk_of chunk_size k then 1 else 0)"
          using g k by (simp add: good_r_def)
        have n: "count_reads (rtrace ?s') (offset + k) =
            count_reads (rtrace s) (offset + k) + (if chunk_of chunk_size k = i then 1 else 0)"
          using inr[OF k] by (auto simp add: count_reads_def)
        show "count_reads (rtrace ?s') (offset + k) =
          (if readers ?s' ! chunk_of chunk_size k then 1 else 0)"
        proof (cases "chunk_of chunk_size k = i")
          case True
          then show ?thesis using n c ni il by simp
        next
          case False
          then show ?thesis using n c by simp
        qed
      qed
      moreover have "sz \<le> length (rbuffer ?s') \<longrightarrow>
         (\<forall>k < sz. readers ?s' ! chunk_of chunk_size k \<longrightarrow>
            offset + k < length (file_of e) \<and> rbuffer ?s' ! k = file_of e ! (offset + k))"
      proof (intro allI impI)
        fix k assume L: "sz \<le> length (rbuffer ?s')" and k: "k < sz"
          and r: "readers ?s' ! chunk_of chunk_size k"
        have kl: "k < length (rbuffer s)" using L k by simp
        show "offset + k < length (file_of e) \<and> rbuffer ?s' ! k = file_of e ! (offset + k)"
        proof (cases "chunk_of chunk_size k = i")
          case True
          then have in1: "?start \<le> k" "k < ?start + ?n" using inr[OF k] by simp_all
          have "?n \<le> length f - (offset + ?start)" using len by (simp add: length_pread)
          then have a: "offset + k < length f" using in1 by linarith
          have "k - ?start < length ?got" using in1 len by linarith
          then have "?got ! (k - ?start) = f ! (offset + ?start + (k - ?start))" by (rule nth_pread)
          then have "?got ! (k - ?start) = f ! (offset + k)" using in1 by simp
          moreover have cond: "?start \<le> k \<and> k < ?start + length ?got"
            unfolding len using in1 by blast
          have "blit (rbuffer s) ?start ?got ! k = ?got ! (k - ?start)"
            by (subst nth_blit[OF kl]) (simp only: cond if_True simp_thms)
          ultimately show ?thesis using a f by simp
        next
          case False
          then have "readers s ! chunk_of chunk_size k" using r by simp
          then have "offset + k < length (file_of e) \<and> rbuffer s ! k = file_of e ! (offset + k)"
            using g L k by (simp add: good_r_def)
          moreover have cond: "\<not> (?start \<le> k \<and> k < ?start + length ?got)"
            unfolding len using inr[OF k] False by blast
          have "blit (rbuffer s) ?start ?got ! k = rbuffer s ! k"
            by (subst nth_blit[OF kl]) (simp only: cond if_False simp_thms)
          ultimately show ?thesis by simp
        qed
      qed
      ultimately show ?thesis using g len unfolding eq by (simp add: good_r_def)
    qed
  qed
qed

lemma good_r_fold:
  assumes "good_r e offset sz chunk_size n s" and "0 < chunk_size \<or> sz = 0"
    and "\<not> read_failed (fold (read_thread e offset sz chunk_size) sched s)"
  shows "good_r e offset sz chunk_size n (fold (read_thread e offset sz chunk_size) sched s)"
  using assms
proof (induction sched arbitrary: s)
  case Nil
  then show ?case by simp
next
  case (Cons i sched)
  have "\<not> read_failed (read_thread e offset sz chunk_size i s)"
    using Cons.prems(3) read_failed_fold_mono by fastforce
  then have "good_r e offset sz chunk_size n (read_thread e offset sz chunk_size i s)"
    using good_r_step Cons.prems by blast
  then show ?case using Cons by simp
qed

lemma chunk_size_covers:
  assumes "0 < (n::nat)" and "k < sz"
  shows "0 < (sz + n - 1) div n" and "k div ((sz + n - 1) div n) < n"
proof -
  let ?c = "(sz + n - 1) div n"
  have "n \<le> sz + n - 1" using assms(2) by simp
  then have "n div n \<le> ?c" by (rule div_le_mono)
  then show c: "0 < ?c" using assms(1) by simp
  have "sz + n - 1 < (?c + 1) * n" using assms(1)
    by (metis add.commute dividend_less_times_div mult.commute Suc_eq_plus1 mult_Suc)
  then have "sz \<le> ?c * n" by simp
  then have "k < n * ?c" using assms(2) by (simp add: mult.commute)
  then show "k div ?c < n" using c by (simp add: less_mult_imp_div_less mult.commute)
qed

subsection \<open>The contents of the buffers during the pipeline\<close>

lemma good_b_block:
  assumes g: "good_b e offset sz s"
    and len: "length (pread (file_of e) (offset + p) n) = n"
  shows "good_b e offset sz
     (s\<lparr>load_buffer := blit (load_buffer s) p (pread (file_of e) (offset + p) n),
        dq := q, trace := trace s @ [Pread (offset + p) n p, Push p b, Notify_one],
        loaders := l\<rparr>)"
proof -
  let ?got = "pread (file_of e) (offset + p) n"
  have "blit (load_buffer s) p ?got ! k = file_of e ! (offset + k)" if k: "k < sz" for k
  proof -
    have kl: "k < length (load_buffer s)" using g k by (simp add: good_b_def)
    show ?thesis
    proof (cases "p \<le> k \<and> k < p + length ?got")
      case True
      then have "k - p < length ?got" by linarith
      then have "?got ! (k - p) = file_of e ! (offset + p + (k - p))" by (rule nth_pread)
      then have "?got ! (k - p) = file_of e ! (offset + k)" using True by simp
      moreover have "blit (load_buffer s) p ?got ! k = ?got ! (k - p)"
        by (subst nth_blit[OF kl]) (simp only: True if_True simp_thms)
      ultimately show ?thesis by simp
    next
      case False
      have "blit (load_buffer s) p ?got ! k = load_buffer s ! k"
        by (subst nth_blit[OF kl]) (simp only: False if_False simp_thms)
      then show ?thesis using g k by (simp add: good_b_def)
    qed
  qed
  moreover have "count_copies (trace s @ [Pread (offset + p) n p, Push p b, Notify_one]) k =
      count_copies (trace s) k" for k
    by (simp add: count_copies_def)
  ultimately show ?thesis using g by (simp add: good_b_def)
qed

lemma good_b_copy:
  assumes g: "good_b e offset sz s"
  shows "good_b e offset sz
     (s\<lparr>cuda_buffer := copy_bytes s a b, dq := q, trace := trace s @ [Memcpy a b]\<rparr>)"
proof -
  let ?src = "take (b - a) (drop a (load_buffer s))"
  have "sz \<le> length cb' \<and>
         (\<forall>k < sz. 0 < count_copies (trace s @ [Memcpy a b]) k \<longrightarrow> cb' ! k = file_of e ! (offset + k))"
    if c: "copy_bytes s a b = Some cb'" for cb'
  proof -
    from c obtain cb where cb: "cuda_buffer s = Some cb" and cb': "cb' = blit cb a ?src"
      by (auto simp add: copy_bytes_def)
    have l: "sz \<le> length cb" using g cb by (simp add: good_b_def)
    have "cb' ! k = file_of e ! (offset + k)"
      if k: "k < sz" and n: "0 < count_copies (trace s @ [Memcpy a b]) k" for k
    proof -
      have kl: "k < length cb" using l k by simp
      have kL: "k < length (load_buffer s)" using g k by (simp add: good_b_def)
      show ?thesis
      proof (cases "a \<le> k \<and> k < b")
        case True
        then have in_src: "k - a < length ?src" using kL by auto
        have cond: "a \<le> k \<and> k < a + length ?src" using True in_src by linarith
        have "cb' ! k = ?src ! (k - a)" unfolding cb'
          by (subst nth_blit[OF kl]) (simp only: cond if_True simp_thms)
        also have "\<dots> = load_buffer s ! k"
        proof -
          have "k - a < b - a" "a \<le> length (load_buffer s)" "a + (k - a) = k"
            using True kL by auto
          then show ?thesis by simp
        qed
        also have "\<dots> = file_of e ! (offset + k)" using g k by (simp add: good_b_def)
        finally show ?thesis .
      next
        case False
        then have "0 < count_copies (trace s) k" using n by (auto simp add: count_copies_def)
        then have old: "cb ! k = file_of e ! (offset + k)" using g cb k by (simp add: good_b_def)
        have "length ?src \<le> b - a" by simp
        then have cond: "\<not> (a \<le> k \<and> k < a + length ?src)" using False by linarith
        have "cb' ! k = cb ! k" unfolding cb'
          by (subst nth_blit[OF kl]) (simp only: cond if_False simp_thms)
        then show ?thesis using old by simp
      qed
    qed
    then show ?thesis using l cb' by simp
  qed
  then show ?thesis using g by (simp add: good_b_def)
qed

lemma good_b_step:
  assumes g: "good_b e offset sz s"
    and nf: "\<not> load_failed (step e cfg offset sz t s)"
  shows "good_b e offset sz (step e cfg offset sz t s)"
proof (cases t)
  case (Loader j)
  show ?thesis
  proof (cases "j < length (loaders s)")
    case False
    then show ?thesis using g Loader by (simp add: step_def)
  next
    case True
    from nf Loader have nf': "\<not> load_failed (step e cfg offset sz (Loader j) s)" by simp
    from nf' True have "good_b e offset sz (step e cfg offset sz (Loader j) s)"
    proof (cases rule: loader_step_cases)
      case idle
      then show ?thesis using g by simp
    next
      case (opened p)
      then show ?thesis using g by (simp add: good_b_def)
    next
      case (finish p)
      then show ?thesis using g by (simp add: good_b_def)
    next
      case (block p)
      then show ?thesis using good_b_block[OF g block(3)] by simp
    qed
    then show ?thesis using Loader by simp
  qed
next
  case (Copier j)
  show ?thesis
  proof (cases "j < length (copiers s)")
    case False
    then show ?thesis using g Copier by (simp add: step_def)
  next
    case True
    from nf Copier have nf': "\<not> load_failed (step e cfg offset sz (Copier j) s)" by simp
    from nf' True have "good_b e offset sz (step e cfg offset sz (Copier j) s)"
    proof (cases rule: copier_step_cases)
      case idle
      then show ?thesis using g by simp
    next
      case exit
      then show ?thesis using g by (simp add: good_b_def)
    next
      case (copy a b rest)
      then show ?thesis using good_b_copy[OF g] by simp
    qed
    then show ?thesis using Copier by simp
  qed
next
  case Main
  have "good_b e offset sz (step e cfg offset sz Main s)"
  proof (cases rule: main_step_cases[of e cfg offset sz s])
    case idle
    then show ?thesis using g by simp
  next
    case signal
    then show ?thesis using g by (simp add: good_b_def count_copies_def)
  next
    case joined
    then show ?thesis using g by (simp add: good_b_def)
  qed
  then show ?thesis using Main by simp
qed

lemma good_b_fold:
  assumes "good_b e offset sz s"
    and "\<not> load_failed (fold (step e cfg offset sz) sched s)"
  shows "good_b e offset sz (fold (step e cfg offset sz) sched s)"
  using assms
proof (induction sched arbitrary: s)
  case Nil
  then show ?case by simp
next
  case (Cons t sched)
  have "\<not> load_failed (step e cfg offset sz t s)"
    using Cons.prems(2) load_failed_fold_mono by fastforce
  then have "good_b e offset sz (step e cfg offset sz t s)"
    using good_b_step Cons.prems by blast
  then show ?case using Cons by simp
qed

text \<open>The lengths of the two buffers never change.\<close>

lemma buffer_lengths_step:
  "length (load_buffer (step e cfg offset sz t s)) = length (load_buffer s) \<and>
   map_option length (cuda_buffer (step e cfg offset sz t s)) = map_option length (cuda_buffer s)"
  by (auto simp add: step_def load_thread_def copy_worker_def main_step_def Let_def option.map_comp comp_def
      split: tid.splits lworker.splits cworker.splits option.splits mthread.splits list.splits prod.splits)

lemma buffer_lengths_fold:
  "length (load_buffer (fold (step e cfg offset sz) sched s)) = length (load_buffer s) \<and>
   map_option length (cuda_buffer (fold (step e cfg offset sz) sched s)) = map_option length (cuda_buffer s)"
  by (induction sched arbitrary: s) (simp_all add: buffer_lengths_step)

lemma rbuffer_length_fold:
  "length (rbuffer (fold (read_thread e offset sz chunk_size) sched s)) = length (rbuffer s)"
proof (induction sched arbitrary: s)
  case Nil
  then show ?case by simp
next
  case (Cons i sched)
  have "length (rbuffer (read_thread e offset sz chunk_size i s)) = length (rbuffer s)"
    by (simp add: read_thread_def Let_def split: option.splits)
  then show ?case using Cons by simp
qed

subsection \<open>The two phases of a call\<close>

lemma stloader_read_Returned:
  assumes "stloader_read e cfg offset sz tgt sched1 sched2 = Returned m"
  shows "0 < STLOADER_THREADS cfg"
    and "list_all (\<lambda>b. b) (readers (phase1 e cfg offset sz tgt sched1))"
    and "\<not> read_failed (phase1 e cfg offset sz tgt sched1)"
    and "main_thread (phase2 e cfg offset sz tgt sched1 sched2) = M_done"
    and "\<not> load_failed (phase2 e cfg offset sz tgt sched1 sched2)"
    and "m = observe (target_cpu tgt) (if target_cpu tgt then Unallocated else Freed)
              (load_buffer (phase2 e cfg offset sz tgt sched1 sched2))
              (cuda_buffer (phase2 e cfg offset sz tgt sched1 sched2))
              (trace (phase2 e cfg offset sz tgt sched1 sched2))"
  using assms
  unfolding stloader_read_def phase1_def phase2_def chunk_size_of_def load_buffer0_def cuda_buffer0_def Let_def
  by (auto split: if_splits)

lemma phase1_good:
  assumes T: "0 < STLOADER_THREADS cfg"
    and nf: "\<not> read_failed (phase1 e cfg offset sz tgt sched1)"
  shows "good_r e offset sz (chunk_size_of cfg sz) (STLOADER_THREADS cfg)
           (phase1 e cfg offset sz tgt sched1)"
proof -
  let ?cs = "chunk_size_of cfg sz"
  let ?ini = "\<lparr>rbuffer = load_buffer0 e sz tgt, read_failed = False,
        readers = replicate (STLOADER_THREADS cfg) False, rtrace = []\<rparr>"
  have lt: "chunk_of ?cs k < STLOADER_THREADS cfg" if "k < sz" for k
    using chunk_size_covers(2)[OF T that] by (simp add: chunk_of_def chunk_size_of_def)
  have "good_r e offset sz ?cs (STLOADER_THREADS cfg) ?ini"
    using lt by (simp add: good_r_def only_reads_def count_reads_def)
  moreover have "0 < ?cs \<or> sz = 0"
    using chunk_size_covers(1)[OF T, of 0 sz] by (auto simp add: chunk_size_of_def)
  ultimately show ?thesis using nf unfolding phase1_def by (intro good_r_fold)
qed

lemma phase1_result:
  assumes T: "0 < STLOADER_THREADS cfg"
    and nf: "\<not> read_failed (phase1 e cfg offset sz tgt sched1)"
    and all: "list_all (\<lambda>b. b) (readers (phase1 e cfg offset sz tgt sched1))"
  shows "only_reads (rtrace (phase1 e cfg offset sz tgt sched1))"
    and "\<forall>k < sz. count_reads (rtrace (phase1 e cfg offset sz tgt sched1)) (offset + k) = 1"
    and "sz \<le> length (load_buffer0 e sz tgt) \<Longrightarrow>
         \<forall>k < sz. offset + k < length (file_of e) \<and>
            rbuffer (phase1 e cfg offset sz tgt sched1) ! k = file_of e ! (offset + k)"
    and "length (rbuffer (phase1 e cfg offset sz tgt sched1)) = length (load_buffer0 e sz tgt)"
proof -
  let ?r = "phase1 e cfg offset sz tgt sched1"
  let ?cs = "chunk_size_of cfg sz"
  note g = phase1_good[OF T nf]
  have len: "length (rbuffer ?r) = length (load_buffer0 e sz tgt)"
    unfolding phase1_def by (simp add: rbuffer_length_fold)
  have ran: "readers ?r ! chunk_of ?cs k" if "k < sz" for k
  proof -
    have "chunk_of ?cs k < length (readers ?r)"
      using chunk_size_covers(2)[OF T that] g by (simp add: chunk_of_def chunk_size_of_def good_r_def)
    then show ?thesis using all by (simp add: list_all_length)
  qed
  show "only_reads (rtrace ?r)" using g by (simp add: good_r_def)
  show "\<forall>k < sz. count_reads (rtrace ?r) (offset + k) = 1" using g ran by (simp add: good_r_def)
  show "length (rbuffer ?r) = length (load_buffer0 e sz tgt)" by (rule len)
  show "\<forall>k < sz. offset + k < length (file_of e) \<and> rbuffer ?r ! k = file_of e ! (offset + k)"
    if "sz \<le> length (load_buffer0 e sz tgt)"
    using g ran that len by (simp add: good_r_def)
qed

lemma phase2_good_q:
  assumes r: "stloader_read e cfg offset sz tgt sched1 sched2 = Returned m"
    and B: "0 < STLOADER_BLOCK_SIZE cfg"
  shows "good_q cfg offset sz (rtrace (phase1 e cfg offset sz tgt sched1))
           (if target_cpu tgt then 0 else STLOADER_COPY_THREADS cfg)
           (phase2 e cfg offset sz tgt sched1 sched2)"
proof -
  note R = stloader_read_Returned[OF r]
  let ?r = "phase1 e cfg offset sz tgt sched1"
  have tr: "only_reads (rtrace ?r)" using phase1_result(1)[OF R(1) R(3) R(2)] .
  have nc: "length (copiers (spawn cfg sz (rbuffer ?r) (cuda_buffer0 tgt) (rtrace ?r))) =
      (if target_cpu tgt then 0 else STLOADER_COPY_THREADS cfg)"
    by (simp add: spawn_def cuda_buffer0_def)
  from good_q_spawn[OF B R(1) tr, of offset sz "rbuffer ?r" "cuda_buffer0 tgt"]
  have "good_q cfg offset sz (rtrace ?r) (if target_cpu tgt then 0 else STLOADER_COPY_THREADS cfg)
      (spawn cfg sz (rbuffer ?r) (cuda_buffer0 tgt) (rtrace ?r))"
    unfolding nc .
  then show ?thesis using B R(1) R(5) unfolding phase2_def by (intro good_q_fold)
qed

lemma returned_block_size:
  assumes r: "stloader_read e cfg offset sz tgt sched1 sched2 = Returned m"
  shows "0 < STLOADER_BLOCK_SIZE cfg \<or> sz = 0"
  using stloader_read_Returned[OF r] finished_block_size unfolding phase2_def by blast

text \<open>What a finished, unfailed pipeline has done at every position of the segment.\<close>

lemma phase2_final:
  assumes r: "stloader_read e cfg offset sz tgt sched1 sched2 = Returned m"
    and B: "0 < STLOADER_BLOCK_SIZE cfg" and k: "k < sz"
  shows "count_pushes (events m) k = 1"
    and "count_reads (events m) (offset + k) = 2"
    and "target_cpu tgt \<Longrightarrow> count_copies (events m) k = 0"
    and "\<not> target_cpu tgt \<Longrightarrow> 0 < STLOADER_COPY_THREADS cfg \<Longrightarrow> count_copies (events m) k = 1"
proof -
  note R = stloader_read_Returned[OF r]
  let ?r = "phase1 e cfg offset sz tgt sched1"
  let ?s = "phase2 e cfg offset sz tgt sched1 sched2"
  let ?nc = "if target_cpu tgt then 0 else STLOADER_COPY_THREADS cfg"
  note g = phase2_good_q[OF r B]
  have ev: "events m = trace ?s" using R(6) by (simp add: observe_def)
  have dl: "done_loading ?s" using g R(4) by (simp add: good_q_def)
  have o: "owner cfg k < length (loaders ?s)" and pk: "point_ok cfg ?s k"
    and c: "count_reads (trace ?s) (offset + k) =
        count_reads (rtrace ?r) (offset + k) + count_pushes (trace ?s) k"
    using g k by (simp_all add: good_q_def)
  have "loaders ?s ! owner cfg k = L_done" using g dl o by (simp add: good_q_def)
  then have np: "count_pushes (trace ?s) k = 1"
    and qc: "queued (dq ?s) k + count_copies (trace ?s) k = 1"
    using pk by (simp_all add: point_ok_def)
  show "count_pushes (events m) k = 1" using np ev by simp
  have "count_reads (rtrace ?r) (offset + k) = 1"
    using phase1_result(2)[OF R(1) R(3) R(2)] k by simp
  then show "count_reads (events m) (offset + k) = 2" using c np ev by simp
  show "count_copies (events m) k = 0" if "target_cpu tgt"
    using g that ev by (simp add: good_q_def)
  show "count_copies (events m) k = 1" if "\<not> target_cpu tgt" and C: "0 < STLOADER_COPY_THREADS cfg"
  proof -
    have lc: "length (copiers ?s) = STLOADER_COPY_THREADS cfg" using g that by (simp add: good_q_def)
    have "\<forall>j<length (copiers ?s). copiers ?s ! j = C_done" using g R(4) by (simp add: good_q_def)
    then have "\<exists>j<length (copiers ?s). copiers ?s ! j = C_done" using lc C by auto
    then have "dq ?s = []" using g by (simp add: good_q_def)
    then show ?thesis using qc ev by (simp add: queued_def)
  qed
qed

subsection \<open>A call on a readable file can return\<close>

text \<open>
  Every move of the pipeline lowers \<open>work_left\<close>, and while the calling thread has not
  finished some thread can move; so from every state without failure some schedule ends the
  pipeline. With the chunk readers run in order this gives, for every readable file and
  every configuration with positive counts, schedules under which \<open>stloader_read\<close> returns.
\<close>

lemma progress_step:
  assumes c: "calm e offset sz" and B: "0 < STLOADER_BLOCK_SIZE cfg" and T: "0 < STLOADER_THREADS cfg"
    and r: "running s" and m: "main_thread s \<noteq> M_done"
  shows "\<exists>t. running (step e cfg offset sz t s) \<and>
    work_left sz (step e cfg offset sz t s) < work_left sz s"
proof (cases "\<exists>j<length (loaders s). loaders s ! j \<noteq> L_done")
  case True
  then obtain j where j: "j < length (loaders s)" and nd: "loaders s ! j \<noteq> L_done" by blast
  from c obtain f where f: "file_bytes e = Some f" and fo: "file_of e = f"
    by (auto simp add: calm_def file_of_def)
  have nf: "\<not> load_failed s" using r by (simp add: running_def)
  let ?W = "\<lambda>l. sum_list (map (lweight sz) l)"
  show ?thesis
  proof (cases "loaders s ! j")
    case L_done
    then show ?thesis using nd by simp
  next
    case (L_open p)
    have st: "step e cfg offset sz (Loader j) s = s\<lparr>loaders := (loaders s)[j := L_loop p]\<rparr>"
      using L_open j f by (simp add: step_def load_thread_def)
    have "?W ((loaders s)[j := L_loop p]) + lweight sz (L_open p) = ?W (loaders s) + lweight sz (L_loop p)"
      using sum_list_map_update[OF j, of "lweight sz" "L_loop p"] L_open by simp
    then have "?W ((loaders s)[j := L_loop p]) < ?W (loaders s)" by simp
    then have "work_left sz (step e cfg offset sz (Loader j) s) < work_left sz s"
      unfolding st by (simp add: work_left_def)
    moreover have "running (step e cfg offset sz (Loader j) s)"
      unfolding st using r by (simp add: running_def)
    ultimately show ?thesis by blast
  next
    case (L_loop p)
    show ?thesis
    proof (cases "p < sz")
      case False
      have st: "step e cfg offset sz (Loader j) s = s\<lparr>loaders := (loaders s)[j := L_done]\<rparr>"
        using L_loop j False by (simp add: step_def load_thread_def)
      have "?W ((loaders s)[j := L_done]) + lweight sz (L_loop p) = ?W (loaders s) + lweight sz L_done"
        using sum_list_map_update[OF j, of "lweight sz" L_done] L_loop by simp
      then have "?W ((loaders s)[j := L_done]) < ?W (loaders s)" by simp
      then have "work_left sz (step e cfg offset sz (Loader j) s) < work_left sz s"
        unfolding st by (simp add: work_left_def)
      moreover have "running (step e cfg offset sz (Loader j) s)"
        unfolding st using r by (simp add: running_def)
      ultimately show ?thesis by blast
    next
      case True
      let ?b = "block_end cfg sz p"
      let ?D = "STLOADER_THREADS cfg * STLOADER_BLOCK_SIZE cfg"
      let ?got = "pread (file_of e) (offset + p) (?b - p)"
      have "?b \<le> sz" "p \<le> ?b" using True by (simp_all add: block_end_def)
      moreover have "offset + sz \<le> length (file_of e)" using c by (simp add: calm_def)
      ultimately have "offset + p + (?b - p) \<le> length (file_of e)" by linarith
      then have len: "length ?got = ?b - p" by (rule pread_full)
      have st: "step e cfg offset sz (Loader j) s =
         s\<lparr>load_buffer := blit (load_buffer s) p ?got,
           dq := dq s @ [(p, ?b)],
           trace := trace s @ [Pread (offset + p) (?b - p) p, Push p ?b, Notify_one],
           loaders := (loaders s)[j := L_loop (p + ?D)]\<rparr>"
        using L_loop True nf j len
        by (simp add: step_def load_thread_def Let_def block_end_def file_of_def)
      have Dpos: "0 < ?D" using B T by simp
      have "?W ((loaders s)[j := L_loop (p + ?D)]) + lweight sz (L_loop p) =
          ?W (loaders s) + lweight sz (L_loop (p + ?D))"
        using sum_list_map_update[OF j, of "lweight sz" "L_loop (p + ?D)"] L_loop by simp
      moreover have "sz - (p + ?D) + 1 \<le> sz - p" using True Dpos by linarith
      then have "lweight sz (L_loop (p + ?D)) + 2 \<le> lweight sz (L_loop p)"
        by simp
      ultimately have "?W ((loaders s)[j := L_loop (p + ?D)]) + 2 \<le> ?W (loaders s)" by linarith
      then have "work_left sz (step e cfg offset sz (Loader j) s) < work_left sz s"
        unfolding st by (simp add: work_left_def)
      moreover have "running (step e cfg offset sz (Loader j) s)"
        unfolding st using r by (simp add: running_def)
      ultimately show ?thesis by blast
    qed
  qed
next
  case False
  then have all_done: "list_all (\<lambda>w. w = L_done) (loaders s)" by (simp add: list_all_length)
  have nf: "\<not> load_failed s" using r by (simp add: running_def)
  show ?thesis
  proof (cases "main_thread s")
    case M_done
    then show ?thesis using m by simp
  next
    case M_join_loaders
    have st: "step e cfg offset sz Main s =
        s\<lparr>done_loading := True, trace := trace s @ [Notify_all], main_thread := M_join_copiers\<rparr>"
      using M_join_loaders all_done by (simp add: step_def main_step_def)
    have "work_left sz (step e cfg offset sz Main s) < work_left sz s"
      unfolding st using M_join_loaders by (simp add: work_left_def)
    moreover have "running (step e cfg offset sz Main s)"
      unfolding st using nf by (simp add: running_def)
    ultimately show ?thesis by blast
  next
    case M_join_copiers
    then have dl: "done_loading s" using r by (simp add: running_def)
    show ?thesis
    proof (cases "\<exists>j<length (copiers s). copiers s ! j \<noteq> C_done")
      case False
      then have "list_all (\<lambda>w. w = C_done) (copiers s)" by (simp add: list_all_length)
      then have st: "step e cfg offset sz Main s = s\<lparr>main_thread := M_done\<rparr>"
        using M_join_copiers by (simp add: step_def main_step_def)
      have "work_left sz (step e cfg offset sz Main s) < work_left sz s"
        unfolding st using M_join_copiers by (simp add: work_left_def)
      moreover have "running (step e cfg offset sz Main s)"
        unfolding st using r M_join_copiers by (simp add: running_def)
      ultimately show ?thesis by blast
    next
      case True
      then obtain j where j: "j < length (copiers s)" and cr: "copiers s ! j = C_run"
        by (metis cworker.exhaust)
      show ?thesis
      proof (cases "dq s")
        case Nil
        have st: "step e cfg offset sz (Copier j) s = s\<lparr>copiers := (copiers s)[j := C_done]\<rparr>"
          using cr Nil nf dl j by (simp add: step_def copy_worker_def)
        have "sum_list (map cweight ((copiers s)[j := C_done])) + cweight C_run =
            sum_list (map cweight (copiers s)) + cweight C_done"
          using sum_list_map_update[OF j, of cweight C_done] cr by simp
        then have "sum_list (map cweight ((copiers s)[j := C_done])) < sum_list (map cweight (copiers s))"
          by simp
        then have "work_left sz (step e cfg offset sz (Copier j) s) < work_left sz s"
          unfolding st by (simp add: work_left_def)
        moreover have "running (step e cfg offset sz (Copier j) s)"
          unfolding st using r by (simp add: running_def)
        ultimately show ?thesis by blast
      next
        case (Cons ab rest)
        obtain a b where ab: "ab = (a, b)" by (cases ab)
        have ok: "memcpy_ok e a b" using c by (simp add: calm_def)
        have "(copiers s)[j := C_run] = copiers s" using cr j by (simp add: list_update_same_conv)
        then have st: "step e cfg offset sz (Copier j) s =
            s\<lparr>cuda_buffer := copy_bytes s a b, dq := rest, trace := trace s @ [Memcpy a b]\<rparr>"
          using cr Cons ab nf j ok by (simp add: step_def copy_worker_def copy_bytes_def)
        have "work_left sz (step e cfg offset sz (Copier j) s) < work_left sz s"
          unfolding st using Cons by (simp add: work_left_def)
        moreover have "running (step e cfg offset sz (Copier j) s)"
          unfolding st using r by (simp add: running_def)
        ultimately show ?thesis by blast
      qed
    qed
  qed
qed

lemma pipeline_can_finish:
  assumes "calm e offset sz" and "0 < STLOADER_BLOCK_SIZE cfg" and "0 < STLOADER_THREADS cfg"
    and "running s"
  shows "\<exists>sched. main_thread (fold (step e cfg offset sz) sched s) = M_done \<and>
    \<not> load_failed (fold (step e cfg offset sz) sched s)"
  using assms(4)
proof (induction "work_left sz s" arbitrary: s rule: less_induct)
  case less
  show ?case
  proof (cases "main_thread s = M_done")
    case True
    then have "main_thread (fold (step e cfg offset sz) [] s) = M_done \<and>
      \<not> load_failed (fold (step e cfg offset sz) [] s)"
      using less.prems by (simp add: running_def)
    then show ?thesis by blast
  next
    case False
    from progress_step[OF assms(1,2,3) less.prems False] obtain t where
      t: "running (step e cfg offset sz t s)"
         "work_left sz (step e cfg offset sz t s) < work_left sz s" by blast
    from less.hyps[OF t(2) t(1)] obtain sched where
      "main_thread (fold (step e cfg offset sz) sched (step e cfg offset sz t s)) = M_done \<and>
       \<not> load_failed (fold (step e cfg offset sz) sched (step e cfg offset sz t s))" by blast
    then have "main_thread (fold (step e cfg offset sz) (t # sched) s) = M_done \<and>
       \<not> load_failed (fold (step e cfg offset sz) (t # sched) s)" by simp
    then show ?thesis by blast
  qed
qed

lemma readers_in_order:
  assumes c: "calm e offset sz" and n: "n \<le> length (readers s)"
    and s: "\<not> read_failed s" "\<forall>i<length (readers s). \<not> readers s ! i"
  shows "\<not> read_failed (fold (read_thread e offset sz cs) [0..<n] s) \<and>
    length (readers (fold (read_thread e offset sz cs) [0..<n] s)) = length (readers s) \<and>
    (\<forall>i<length (readers s). readers (fold (read_thread e offset sz cs) [0..<n] s) ! i = (i < n))"
  using n
proof (induction n)
  case 0
  then show ?case using s by simp
next
  case (Suc n)
  let ?r = "fold (read_thread e offset sz cs) [0..<n] s"
  from Suc have IH: "\<not> read_failed ?r" "length (readers ?r) = length (readers s)"
    "\<forall>i<length (readers s). readers ?r ! i = (i < n)" by simp_all
  have nl: "n < length (readers ?r)" using Suc.prems IH(2) by simp
  have nn: "\<not> readers ?r ! n" using IH(3) Suc.prems by simp
  from c obtain f where f: "file_bytes e = Some f" and fo: "file_of e = f"
    by (auto simp add: calm_def file_of_def)
  let ?start = "n * cs"
  let ?end = "min (?start + cs) sz"
  have rf: "\<not> read_failed (read_thread e offset sz cs n ?r)"
  proof (cases "?start \<ge> ?end")
    case True
    then show ?thesis using nl nn IH(1) by (simp add: read_thread_def Let_def)
  next
    case False
    have "?end \<le> sz" by simp
    moreover have "offset + sz \<le> length f" using c fo by (simp add: calm_def)
    ultimately have "offset + ?start + (?end - ?start) \<le> length f" using False by linarith
    then have full: "length (pread f (offset + ?start) (?end - ?start)) = ?end - ?start"
      by (rule pread_full)
    show ?thesis using nl nn IH(1) f full False by (simp add: read_thread_def Let_def)
  qed
  have rd: "readers (read_thread e offset sz cs n ?r) = (readers ?r)[n := True]"
    using nl nn f by (simp add: read_thread_def Let_def split: if_splits)
  have "fold (read_thread e offset sz cs) [0..<Suc n] s = read_thread e offset sz cs n ?r"
    by simp
  moreover have "\<forall>i<length (readers s). ((readers ?r)[n := True]) ! i = (i < Suc n)"
    using IH(2,3) nl by (auto simp add: nth_list_update less_Suc_eq)
  ultimately show ?case using rf rd IH(2) by simp
qed

lemma stloader_read_returns:
  assumes c: "calm e offset sz" and B: "0 < STLOADER_BLOCK_SIZE cfg" and T: "0 < STLOADER_THREADS cfg"
    and a: "target_cpu tgt \<or> malloc_ok e"
  shows "\<exists>sched1 sched2 m. stloader_read e cfg offset sz tgt sched1 sched2 = Returned m"
proof -
  let ?sched1 = "[0..<STLOADER_THREADS cfg]"
  let ?r = "phase1 e cfg offset sz tgt ?sched1"
  let ?ini = "\<lparr>rbuffer = load_buffer0 e sz tgt, read_failed = False,
        readers = replicate (STLOADER_THREADS cfg) False, rtrace = []\<rparr>"
  have "\<not> read_failed (fold (read_thread e offset sz (chunk_size_of cfg sz)) ?sched1 ?ini) \<and>
    length (readers (fold (read_thread e offset sz (chunk_size_of cfg sz)) ?sched1 ?ini)) = length (readers ?ini) \<and>
    (\<forall>i<length (readers ?ini). readers (fold (read_thread e offset sz (chunk_size_of cfg sz)) ?sched1 ?ini) ! i
        = (i < STLOADER_THREADS cfg))"
    by (rule readers_in_order[OF c]) simp_all
  then have p1a: "\<not> read_failed ?r" and p1l: "length (readers ?r) = STLOADER_THREADS cfg"
    and p1n: "\<forall>i<STLOADER_THREADS cfg. readers ?r ! i"
    unfolding phase1_def by simp_all
  have p1: "\<not> read_failed ?r" "list_all (\<lambda>b. b) (readers ?r)"
    using p1a p1l p1n by (simp_all add: list_all_length)
  let ?init = "spawn cfg sz (rbuffer ?r) (cuda_buffer0 tgt) (rtrace ?r)"
  have "running ?init" by (simp add: running_def spawn_def)
  from pipeline_can_finish[OF c B T this] obtain sched2 where
    p2: "main_thread (fold (step e cfg offset sz) sched2 ?init) = M_done"
        "\<not> load_failed (fold (step e cfg offset sz) sched2 ?init)" by blast
  have "\<exists>m. stloader_read e cfg offset sz tgt ?sched1 sched2 = Returned m"
    using a T p1 p2
    unfolding stloader_read_def phase1_def chunk_size_of_def load_buffer0_def cuda_buffer0_def Let_def
    by (auto split: if_splits)
  then show ?thesis by blast
qed

subsection \<open>Two runs of the model\<close>

text \<open>
  Five bytes from offset 3 of a file of ten, two read workers, blocks of two bytes, two copy
  workers: to a destination off the CPU, and to one on it. Then one byte with four read
  workers, of which only the first is started.
\<close>

lemma ex_run_gpu:
  "stloader_read ex_env ex_cfg 3 5 ex_gpu ex_order ex_sched =
   Returned \<lparr>target_mem = [4, 5, 6, 7, 8, 0, 0], staging = Freed,
     events = [Pread 6 2 3, Pread 3 3 0, Pread 3 2 0, Push 0 2, Notify_one, Memcpy 0 2,
               Pread 7 1 4, Push 4 5, Notify_one, Pread 5 2 2, Push 2 4, Notify_one,
               Notify_all, Memcpy 4 5, Memcpy 2 4]\<rparr>"
  by code_simp

lemma ex_run_cpu:
  "stloader_read ex_env ex_cfg 3 5 ex_cpu ex_order ex_sched =
   Returned \<lparr>target_mem = [4, 5, 6, 7, 8, 0, 0], staging = Unallocated,
     events = [Pread 6 2 3, Pread 3 3 0, Pread 3 2 0, Push 0 2, Notify_one,
               Pread 7 1 4, Push 4 5, Notify_one, Pread 5 2 2, Push 2 4, Notify_one,
               Notify_all]\<rparr>"
  by code_simp

lemma ex_run_wide:
  "stloader_read ex_env ex_wide_cfg 3 1 ex_gpu ex_wide_order ex_wide_sched =
   Returned \<lparr>target_mem = [4, 0, 0, 0, 0, 0, 0], staging = Freed,
     events = [Pread 3 1 0, Pread 3 1 0, Push 0 1, Notify_one, Notify_all, Memcpy 0 1]\<rparr>"
  by code_simp

text \<open>
  Without copy workers a call to a destination off the CPU returns with the destination as
  it was: the hypothesis of a copy worker cannot be dropped from claim C1.
\<close>

lemma ex_run_no_copiers:
  "stloader_read ex_env ex_no_copier_cfg 3 5 ex_gpu ex_order ex_sched =
   Returned \<lparr>target_mem = [0, 0, 0, 0, 0, 0, 0], staging = Freed,
     events = [Pread 6 2 3, Pread 3 3 0, Pread 3 2 0, Push 0 2, Notify_one,
               Pread 7 1 4, Push 4 5, Notify_one, Pread 5 2 2, Push 2 4, Notify_one,
               Notify_all]\<rparr>"
  by code_simp

section \<open>The claims about the loader\<close>

text \<open>
  Claim C1. When \<open>stloader_read\<close> returns, the first \<open>size\<close> bytes of the destination are
  the bytes \<open>offset, ..., offset + size - 1\<close> of the file, whatever the number of read workers,
  the block size, the number of copy workers (at least one when the destination is not on
  the CPU) and the schedule. The destination has room for the segment; it is never resized.
\<close>

theorem load_segment_bytes:
  assumes r: "stloader_read e cfg offset sz tgt sched1 sched2 = Returned m"
    and room: "sz \<le> length (tdata tgt)"
    and C: "\<not> target_cpu tgt \<longrightarrow> 0 < STLOADER_COPY_THREADS cfg"
  shows "take sz (target_mem m) = take sz (drop offset (file_of e)) \<and>
    length (target_mem m) = length (tdata tgt)"
proof -
  note R = stloader_read_Returned[OF r]
  let ?r = "phase1 e cfg offset sz tgt sched1"
  let ?init = "spawn cfg sz (rbuffer ?r) (cuda_buffer0 tgt) (rtrace ?r)"
  let ?s = "phase2 e cfg offset sz tgt sched1 sched2"
  have room0: "sz \<le> length (load_buffer0 e sz tgt)" using room by (simp add: load_buffer0_def)
  note P = phase1_result[OF R(1) R(3) R(2)]
  have lens: "length (load_buffer ?s) = length (load_buffer0 e sz tgt)"
    "map_option length (cuda_buffer ?s) = map_option length (cuda_buffer0 tgt)"
    using buffer_lengths_fold[where e = e and cfg = cfg and offset = offset and sz = sz
        and sched = sched2 and s = ?init] P(4)
    by (simp_all add: phase2_def spawn_def)
  have tm: "target_mem m = (if target_cpu tgt then load_buffer ?s
      else (case cuda_buffer ?s of None \<Rightarrow> [] | Some b \<Rightarrow> b))"
    using R(6) by (simp add: observe_def)
  have len: "length (target_mem m) = length (tdata tgt)"
    using tm lens by (auto simp add: load_buffer0_def cuda_buffer0_def split: option.splits)
  have "take sz (target_mem m) = take sz (drop offset (file_of e))"
  proof (cases "sz = 0")
    case True
    then show ?thesis by simp
  next
    case False
    then have B: "0 < STLOADER_BLOCK_SIZE cfg" using returned_block_size[OF r] by simp
    have "good_b e offset sz ?init"
      using P(1,3,4) room0 room
      by (auto simp add: good_b_def spawn_def only_reads_counts(2) cuda_buffer0_def)
    then have gb: "good_b e offset sz ?s" using R(5) unfolding phase2_def by (intro good_b_fold)
    have pt: "offset + k < length (file_of e) \<and> target_mem m ! k = file_of e ! (offset + k)"
      if k: "k < sz" for k
    proof (cases "target_cpu tgt")
      case True
      then show ?thesis using gb k tm by (simp add: good_b_def)
    next
      case False
      then have "count_copies (events m) k = 1" using phase2_final(4)[OF r B k] C by simp
      then have cc: "0 < count_copies (trace ?s) k" using R(6) by (simp add: observe_def)
      obtain cb where cb: "cuda_buffer ?s = Some cb"
        using lens(2) False by (cases "cuda_buffer ?s") (simp_all add: cuda_buffer0_def)
      then show ?thesis using gb k tm False cc by (simp add: good_b_def)
    qed
    have "offset + (sz - 1) < length (file_of e)"
      using pt[of "sz - 1"] False by simp
    then have fl: "offset + sz \<le> length (file_of e)" using False by linarith
    show ?thesis
    proof (rule nth_equalityI)
      show "length (take sz (target_mem m)) = length (take sz (drop offset (file_of e)))"
        using len room fl by simp
    next
      fix k assume "k < length (take sz (target_mem m))"
      then have k: "k < sz" by simp
      then show "take sz (target_mem m) ! k = take sz (drop offset (file_of e)) ! k"
        using pt[OF k] fl by simp
    qed
  qed
  then show ?thesis using len by simp
qed

theorem load_segment_bytes_witness:
  "take 5 (target_mem \<lparr>target_mem = [4, 5, 6, 7, 8, 0, 0], staging = Freed,
     events = [Pread 6 2 3, Pread 3 3 0, Pread 3 2 0, Push 0 2, Notify_one, Memcpy 0 2,
               Pread 7 1 4, Push 4 5, Notify_one, Pread 5 2 2, Push 2 4, Notify_one,
               Notify_all, Memcpy 4 5, Memcpy 2 4]\<rparr>) = take 5 (drop 3 (file_of ex_env)) \<and>
   take 5 (target_mem \<lparr>target_mem = [4, 5, 6, 7, 8, 0, 0], staging = Unallocated,
     events = [Pread 6 2 3, Pread 3 3 0, Pread 3 2 0, Push 0 2, Notify_one,
               Pread 7 1 4, Push 4 5, Notify_one, Pread 5 2 2, Push 2 4, Notify_one,
               Notify_all]\<rparr>) = take 5 (drop 3 (file_of ex_env)) \<and>
   take 5 (drop 3 (file_of ex_env)) = [4, 5, 6, 7, 8]"
proof -
  have room: "5 \<le> length (tdata ex_gpu)" "5 \<le> length (tdata ex_cpu)"
    by (simp_all add: ex_gpu_def ex_cpu_def)
  have C: "\<not> target_cpu ex_gpu \<longrightarrow> 0 < STLOADER_COPY_THREADS ex_cfg"
    "\<not> target_cpu ex_cpu \<longrightarrow> 0 < STLOADER_COPY_THREADS ex_cfg"
    by (simp_all add: ex_cfg_def)
  from load_segment_bytes[OF ex_run_gpu room(1) C(1)] load_segment_bytes[OF ex_run_cpu room(2) C(2)]
  show ?thesis by (simp add: file_of_def ex_env_def)
qed

text \<open>
  Ranges that partition \<open>[0, size)\<close>: none is empty or leaves the segment, and every position
  lies in exactly one of them.
\<close>

lemma filter_two:
  assumes "i < j" and "j < length xs" and "P (xs ! i)" and "P (xs ! j)"
  shows "2 \<le> length (filter P xs)"
proof -
  have xs: "xs = take j xs @ xs ! j # drop (Suc j) xs"
    using assms(2) by (simp add: id_take_nth_drop)
  have "xs ! i \<in> set (take j xs)"
    using assms(1,2) by (auto simp add: in_set_conv_nth intro!: exI[of _ i])
  then have "filter P (take j xs) \<noteq> []" using assms(3) by (auto simp add: filter_empty_conv)
  then have "1 \<le> length (filter P (take j xs))" by (cases "filter P (take j xs)") simp_all
  moreover have "length (filter P xs) =
      length (filter P (take j xs)) + length (filter P (xs ! j # drop (Suc j) xs))"
    by (subst xs) simp
  ultimately show ?thesis using assms(4) by simp
qed

lemma partition_ofI:
  assumes wf: "\<forall>(a, b) \<in> set rs. a < b \<and> b \<le> sz"
    and one: "\<forall>k < sz. queued rs k = 1"
  shows "partition_of rs sz"
  unfolding partition_of_def
proof (intro conjI allI impI)
  show "(\<Union>(a, b) \<in> set rs. {a..<b}) = {0..<sz}"
  proof (intro set_eqI iffI)
    fix k assume "k \<in> (\<Union>(a, b) \<in> set rs. {a..<b})"
    then show "k \<in> {0..<sz}" using wf by fastforce
  next
    fix k assume "k \<in> {0..<sz}"
    then have "queued rs k = 1" using one by simp
    then have "filter (\<lambda>(a, b). a \<le> k \<and> k < b) rs \<noteq> []" by (auto simp add: queued_def)
    then obtain a b where "(a, b) \<in> set rs" "a \<le> k" "k < b"
      by (auto simp add: filter_empty_conv)
    then show "k \<in> (\<Union>(a, b) \<in> set rs. {a..<b})" by fastforce
  qed
next
  fix i j assume i: "i < length rs" and j: "j < length rs" and ne: "i \<noteq> j"
  show "{fst (rs ! i)..<snd (rs ! i)} \<inter> {fst (rs ! j)..<snd (rs ! j)} = {}"
  proof (rule ccontr)
    assume "{fst (rs ! i)..<snd (rs ! i)} \<inter> {fst (rs ! j)..<snd (rs ! j)} \<noteq> {}"
    then obtain k where "k \<in> {fst (rs ! i)..<snd (rs ! i)} \<inter> {fst (rs ! j)..<snd (rs ! j)}"
      by blast
    then have ki: "fst (rs ! i) \<le> k" "k < snd (rs ! i)"
      and kj: "fst (rs ! j) \<le> k" "k < snd (rs ! j)" by simp_all
    let ?P = "\<lambda>(a, b). a \<le> k \<and> k < b"
    have Pi: "?P (rs ! i)" and Pj: "?P (rs ! j)" using ki kj by (simp_all add: case_prod_beta)
    have "rs ! i \<in> set rs" using i by simp
    then have "snd (rs ! i) \<le> sz" using wf by (auto simp add: case_prod_beta)
    then have "k < sz" using ki by simp
    then have one': "length (filter ?P rs) = 1" using one by (simp add: queued_def)
    have "2 \<le> length (filter ?P rs)"
    proof (cases "i < j")
      case True
      then show ?thesis using filter_two[OF True j Pi Pj] by simp
    next
      case False
      then have "j < i" using ne by simp
      then show ?thesis using filter_two[OF _ i Pj Pi] by simp
    qed
    then show False using one' by simp
  qed
next
  show "\<forall>(a, b) \<in> set rs. a < b" using wf by auto
qed

text \<open>
  Claim C2. In every call that returns, the ranges the read workers pushed onto the queue
  partition \<open>[0, size)\<close>: their union is \<open>[0, size)\<close>, no two of them overlap, none is empty.
  Each starts at a multiple of the block size and ends one block further or at \<open>size\<close>,
  whichever comes first. This holds for every segment size, block size and number of read
  workers under which the call returns, whether or not the block size divides the segment
  size.
\<close>

theorem read_workers_partition:
  assumes "stloader_read e cfg offset sz tgt sched1 sched2 = Returned m"
  shows "partition_of (pushed (events m)) sz \<and>
    (\<forall>(a, b) \<in> set (pushed (events m)).
       STLOADER_BLOCK_SIZE cfg dvd a \<and> b = min (a + STLOADER_BLOCK_SIZE cfg) sz)"
proof (cases "0 < STLOADER_BLOCK_SIZE cfg")
  case True
  note R = stloader_read_Returned[OF assms]
  let ?s = "phase2 e cfg offset sz tgt sched1 sched2"
  note g = phase2_good_q[OF assms True]
  have ev: "events m = trace ?s" using R(6) by (simp add: observe_def)
  have shape: "\<forall>(a, b) \<in> set (pushed (events m)).
      a < sz \<and> STLOADER_BLOCK_SIZE cfg dvd a \<and> b = block_end cfg sz a"
    using g ev by (simp add: good_q_def)
  have be: "block_end cfg sz a = min (a + STLOADER_BLOCK_SIZE cfg) sz" for a
    by (simp add: block_end_def min_def)
  have wf: "\<forall>(a, b) \<in> set (pushed (events m)). a < b \<and> b \<le> sz"
    using shape True by (auto simp add: block_end_def)
  have one: "\<forall>k < sz. queued (pushed (events m)) k = 1"
    using phase2_final(1)[OF assms True] by (simp add: count_pushes_pushed)
  show ?thesis using partition_ofI[OF wf one] shape be by auto
next
  case False
  note R = stloader_read_Returned[OF assms]
  let ?r = "phase1 e cfg offset sz tgt sched1"
  have B: "STLOADER_BLOCK_SIZE cfg = 0" using False by simp
  then have sz: "sz = 0" using returned_block_size[OF assms] by simp
  have "loaders (spawn cfg sz (rbuffer ?r) (cuda_buffer0 tgt) (rtrace ?r)) = []"
    using sz by (simp add: spawn_def takeWhile_eq_Nil_iff)
  then have "pushed (trace (phase2 e cfg offset sz tgt sched1 sched2)) =
      pushed (trace (spawn cfg sz (rbuffer ?r) (cuda_buffer0 tgt) (rtrace ?r)))"
    unfolding phase2_def by (rule no_loaders_fold)
  also have "\<dots> = pushed (rtrace ?r)" by (simp add: spawn_def)
  also have "\<dots> = []" using phase1_result(1)[OF R(1) R(3) R(2)] by (rule only_reads_counts(3))
  finally have "pushed (events m) = []" using R(6) by (simp add: observe_def)
  then show ?thesis using sz by (simp add: partition_of_def)
qed

theorem read_workers_partition_witness:
  "partition_of (pushed [Pread 6 2 3, Pread 3 3 0, Pread 3 2 0, Push 0 2, Notify_one, Memcpy 0 2,
               Pread 7 1 4, Push 4 5, Notify_one, Pread 5 2 2, Push 2 4, Notify_one,
               Notify_all, Memcpy 4 5, Memcpy 2 4]) 5 \<and>
   pushed [Pread 6 2 3, Pread 3 3 0, Pread 3 2 0, Push 0 2, Notify_one, Memcpy 0 2,
               Pread 7 1 4, Push 4 5, Notify_one, Pread 5 2 2, Push 2 4, Notify_one,
               Notify_all, Memcpy 4 5, Memcpy 2 4] = [(0, 2), (4, 5), (2, 4)] \<and>
   partition_of (pushed [Pread 3 1 0, Pread 3 1 0, Push 0 1, Notify_one, Notify_all, Memcpy 0 1]) 1 \<and>
   pushed [Pread 3 1 0, Pread 3 1 0, Push 0 1, Notify_one, Notify_all, Memcpy 0 1] = [(0, 1)]"
  using read_workers_partition[OF ex_run_gpu] read_workers_partition[OF ex_run_wide] by simp

text \<open>
  Claim C3, as stated, fails: the chunk readers of lines 40 to 68 read the whole segment, and
  the read workers of lines 191 to 235 read it again. In the run below the file byte 3 is
  read twice.
\<close>

theorem byte_read_twice_counterexample:
  "stloader_read ex_env ex_cfg 3 5 ex_gpu ex_order ex_sched =
   Returned \<lparr>target_mem = [4, 5, 6, 7, 8, 0, 0], staging = Freed,
     events = [Pread 6 2 3, Pread 3 3 0, Pread 3 2 0, Push 0 2, Notify_one, Memcpy 0 2,
               Pread 7 1 4, Push 4 5, Notify_one, Pread 5 2 2, Push 2 4, Notify_one,
               Notify_all, Memcpy 4 5, Memcpy 2 4]\<rparr> \<and>
   count_reads (events \<lparr>target_mem = [4, 5, 6, 7, 8, 0, 0], staging = Freed,
     events = [Pread 6 2 3, Pread 3 3 0, Pread 3 2 0, Push 0 2, Notify_one, Memcpy 0 2,
               Pread 7 1 4, Push 4 5, Notify_one, Pread 5 2 2, Push 2 4, Notify_one,
               Notify_all, Memcpy 4 5, Memcpy 2 4]\<rparr>) (3 + 0) \<noteq> 1"
proof
  show "stloader_read ex_env ex_cfg 3 5 ex_gpu ex_order ex_sched =
   Returned \<lparr>target_mem = [4, 5, 6, 7, 8, 0, 0], staging = Freed,
     events = [Pread 6 2 3, Pread 3 3 0, Pread 3 2 0, Push 0 2, Notify_one, Memcpy 0 2,
               Pread 7 1 4, Push 4 5, Notify_one, Pread 5 2 2, Push 2 4, Notify_one,
               Notify_all, Memcpy 4 5, Memcpy 2 4]\<rparr>"
    by (rule ex_run_gpu)
qed (simp add: count_reads_def)

text \<open>
  Claim C3, amended. In every call that returns, every byte of the requested range is read
  from the file exactly twice, once by a chunk reader and once by a read worker; it is
  transferred to the destination exactly once when the destination is not on the CPU (and
  there is a copy worker), and never when it is: the reads then land in the destination.
\<close>

theorem bytes_read_twice_copied_once:
  assumes r: "stloader_read e cfg offset sz tgt sched1 sched2 = Returned m"
    and C: "\<not> target_cpu tgt \<longrightarrow> 0 < STLOADER_COPY_THREADS cfg"
  shows "\<forall>k < sz. count_reads (events m) (offset + k) = 2 \<and>
    count_copies (events m) k = (if target_cpu tgt then 0 else 1)"
proof (intro allI impI)
  fix k assume k: "k < sz"
  then have B: "0 < STLOADER_BLOCK_SIZE cfg" using returned_block_size[OF r] by auto
  show "count_reads (events m) (offset + k) = 2 \<and>
    count_copies (events m) k = (if target_cpu tgt then 0 else 1)"
    using phase2_final(2,3,4)[OF r B k] C by simp
qed

theorem bytes_read_twice_copied_once_witness:
  "count_reads [Pread 6 2 3, Pread 3 3 0, Pread 3 2 0, Push 0 2, Notify_one, Memcpy 0 2,
               Pread 7 1 4, Push 4 5, Notify_one, Pread 5 2 2, Push 2 4, Notify_one,
               Notify_all, Memcpy 4 5, Memcpy 2 4] (3 + 4) = 2 \<and>
   count_copies [Pread 6 2 3, Pread 3 3 0, Pread 3 2 0, Push 0 2, Notify_one, Memcpy 0 2,
               Pread 7 1 4, Push 4 5, Notify_one, Pread 5 2 2, Push 2 4, Notify_one,
               Notify_all, Memcpy 4 5, Memcpy 2 4] 4 = 1 \<and>
   count_reads [Pread 6 2 3, Pread 3 3 0, Pread 3 2 0, Push 0 2, Notify_one,
               Pread 7 1 4, Push 4 5, Notify_one, Pread 5 2 2, Push 2 4, Notify_one,
               Notify_all] (3 + 4) = 2 \<and>
   count_copies [Pread 6 2 3, Pread 3 3 0, Pread 3 2 0, Push 0 2, Notify_one,
               Pread 7 1 4, Push 4 5, Notify_one, Pread 5 2 2, Push 2 4, Notify_one,
               Notify_all] 4 = 0"
proof -
  have C: "\<not> target_cpu ex_gpu \<longrightarrow> 0 < STLOADER_COPY_THREADS ex_cfg"
    "\<not> target_cpu ex_cpu \<longrightarrow> 0 < STLOADER_COPY_THREADS ex_cfg"
    by (simp_all add: ex_cfg_def)
  from bytes_read_twice_copied_once[OF ex_run_gpu C(1), rule_format, of 4]
    bytes_read_twice_copied_once[OF ex_run_cpu C(2), rule_format, of 4]
  show ?thesis by (simp add: ex_gpu_def ex_cpu_def)
qed

text \<open>
  Claim C4 describes what the source does not do. Both \<open>TORCH_CHECK\<close>s that report a failed
  read throw before \<open>free(load_buffer)\<close> is reached, so on every failing path the staging
  buffer, once allocated, is still allocated when the call ends.
\<close>

lemma stloader_read_Raised_staging:
  assumes "stloader_read e cfg offset sz tgt sched1 sched2 = Raised err m"
  shows "staging m \<noteq> Freed" and "\<not> target_cpu tgt \<Longrightarrow> err \<noteq> AllocError \<Longrightarrow> staging m = Live"
  using assms unfolding stloader_read_def Let_def
  by (auto simp add: observe_def split: if_splits)

text \<open>
  Claim C4 at a failing input: the file is truncated to six bytes, the destination is not on
  the CPU. The call reports the failure, and the staging buffer is \<open>Live\<close> afterwards.
\<close>

theorem failed_read_leaks_staging:
  "stloader_read ex_short_env ex_cfg 3 5 ex_gpu [0, 1] [] =
   Raised ReadFailed \<lparr>target_mem = [0, 0, 0, 0, 0, 0, 0], staging = Live,
     events = [Pread 3 3 0, Pread 6 2 3]\<rparr>"
  by code_simp

text \<open>
  The two read workers of the source, step by step: from states that agree but for the kind
  of the notifications in their traces, they reach such states again.
\<close>

lemma worker_step_sim:
  assumes "same_but_notify tr0 s1 s2"
  shows "fst (load_worker e cfg offset sz w s1) = fst (load_thread e cfg offset sz w s2) \<and>
    same_but_notify tr0 (snd (load_worker e cfg offset sz w s1)) (snd (load_thread e cfg offset sz w s2))"
proof -
  from assms obtain new where t2: "trace s2 = tr0 @ new" and t1: "trace s1 = tr0 @ map all_notify new"
    and f: "load_buffer s1 = load_buffer s2" "cuda_buffer s1 = cuda_buffer s2"
      "load_failed s1 = load_failed s2" "done_loading s1 = done_loading s2" "dq s1 = dq s2"
      "loaders s1 = loaders s2" "copiers s1 = copiers s2" "main_thread s1 = main_thread s2"
    by (auto simp add: same_but_notify_def)
  show ?thesis
  proof (cases w)
    case (L_open p)
    then show ?thesis using assms
      by (cases "file_bytes e") (auto simp add: load_worker_def load_thread_def same_but_notify_def)
  next
    case (L_loop p)
    let ?b = "block_end cfg sz p"
    let ?got = "pread (file_of e) (offset + p) (?b - p)"
    let ?rd = "Pread (offset + p) (?b - p) p"
    show ?thesis
    proof (cases "p < sz \<and> \<not> load_failed s2")
      case False
      then show ?thesis using assms L_loop f
        by (auto simp add: load_worker_def load_thread_def same_but_notify_def)
    next
      case True
      show ?thesis
      proof (cases "length ?got = ?b - p")
        case False
        have lw: "load_worker e cfg offset sz w s1 =
            (L_done, s1\<lparr>load_buffer := blit (load_buffer s1) p ?got, trace := trace s1 @ [?rd],
                          load_failed := True\<rparr>)"
          using True False L_loop f
          by (simp add: load_worker_def Let_def block_end_def file_of_def)
        have lt: "load_thread e cfg offset sz w s2 =
            (L_done, s2\<lparr>load_buffer := blit (load_buffer s2) p ?got, trace := trace s2 @ [?rd],
                          load_failed := True\<rparr>)"
          using True False L_loop
          by (simp add: load_thread_def Let_def block_end_def file_of_def)
        have "trace s2 @ [?rd] = tr0 @ (new @ [?rd]) \<and>
            trace s1 @ [?rd] = tr0 @ map all_notify (new @ [?rd])"
          using t1 t2 by (simp add: all_notify_def)
        then have "\<exists>new'. trace s2 @ [?rd] = tr0 @ new' \<and> trace s1 @ [?rd] = tr0 @ map all_notify new'"
          by (rule exI)
        then show ?thesis unfolding lw lt using f by (simp add: same_but_notify_def)
      next
        case len: True
        let ?next = "L_loop (p + STLOADER_THREADS cfg * STLOADER_BLOCK_SIZE cfg)"
        have lw: "load_worker e cfg offset sz w s1 =
            (?next, s1\<lparr>load_buffer := blit (load_buffer s1) p ?got,
                        trace := trace s1 @ [?rd, Push p ?b, Notify_all],
                        dq := dq s1 @ [(p, ?b)]\<rparr>)"
          using True len L_loop f
          by (simp add: load_worker_def Let_def block_end_def file_of_def)
        have lt: "load_thread e cfg offset sz w s2 =
            (?next, s2\<lparr>load_buffer := blit (load_buffer s2) p ?got,
                        trace := trace s2 @ [?rd, Push p ?b, Notify_one],
                        dq := dq s2 @ [(p, ?b)]\<rparr>)"
          using True len L_loop
          by (simp add: load_thread_def Let_def block_end_def file_of_def)
        have "trace s2 @ [?rd, Push p ?b, Notify_one] = tr0 @ (new @ [?rd, Push p ?b, Notify_one]) \<and>
            trace s1 @ [?rd, Push p ?b, Notify_all] =
              tr0 @ map all_notify (new @ [?rd, Push p ?b, Notify_one])"
          using t1 t2 by (simp add: all_notify_def)
        then have "\<exists>new'. trace s2 @ [?rd, Push p ?b, Notify_one] = tr0 @ new' \<and>
            trace s1 @ [?rd, Push p ?b, Notify_all] = tr0 @ map all_notify new'"
          by (rule exI)
        then show ?thesis unfolding lw lt using f by (simp add: same_but_notify_def)
      qed
    qed
  next
    case L_done
    then show ?thesis using assms by (simp add: load_worker_def load_thread_def)
  qed
qed

lemma iterate_worker_sim:
  assumes "same_but_notify tr0 s1 s2"
  shows "fst (iterate_worker (load_worker e cfg offset sz) n w s1) =
         fst (iterate_worker (load_thread e cfg offset sz) n w s2) \<and>
    same_but_notify tr0 (snd (iterate_worker (load_worker e cfg offset sz) n w s1))
                        (snd (iterate_worker (load_thread e cfg offset sz) n w s2))"
  using assms
proof (induction n arbitrary: w s1 s2)
  case 0
  then show ?case by simp
next
  case (Suc n)
  obtain w1 s1' where a: "load_worker e cfg offset sz w s1 = (w1, s1')" by (cases "load_worker e cfg offset sz w s1")
  obtain w2 s2' where b: "load_thread e cfg offset sz w s2 = (w2, s2')" by (cases "load_thread e cfg offset sz w s2")
  from worker_step_sim[OF Suc.prems, of e cfg offset sz w] a b
  have "w1 = w2" "same_but_notify tr0 s1' s2'" by simp_all
  then show ?case using Suc.IH[of s1' s2' w2] a b by simp
qed

text \<open>
  Claim C8. Run alone for any number of steps from the same worker state and the same shared
  state, \<open>load_worker\<close> and the spawned lambda end in the same worker state with the same
  \<open>load_buffer\<close>, the same queue and the same failure flag; they push the same ranges in the
  same order, and their traces are the same reads and pushes, \<open>load_worker\<close> having
  \<open>Notify_all\<close> where the spawned lambda has \<open>Notify_one\<close>.
\<close>

theorem load_worker_same_blocks:
  "fst (iterate_worker (load_worker e cfg offset sz) n w s) =
     fst (iterate_worker (load_thread e cfg offset sz) n w s) \<and>
   load_buffer (snd (iterate_worker (load_worker e cfg offset sz) n w s)) =
     load_buffer (snd (iterate_worker (load_thread e cfg offset sz) n w s)) \<and>
   dq (snd (iterate_worker (load_worker e cfg offset sz) n w s)) =
     dq (snd (iterate_worker (load_thread e cfg offset sz) n w s)) \<and>
   load_failed (snd (iterate_worker (load_worker e cfg offset sz) n w s)) =
     load_failed (snd (iterate_worker (load_thread e cfg offset sz) n w s)) \<and>
   pushed (trace (snd (iterate_worker (load_worker e cfg offset sz) n w s))) =
     pushed (trace (snd (iterate_worker (load_thread e cfg offset sz) n w s))) \<and>
   (\<exists>new. trace (snd (iterate_worker (load_thread e cfg offset sz) n w s)) = trace s @ new \<and>
      trace (snd (iterate_worker (load_worker e cfg offset sz) n w s)) = trace s @ map all_notify new)"
proof -
  have "same_but_notify (trace s) s s" by (simp add: same_but_notify_def)
  from iterate_worker_sim[OF this, of e cfg offset sz n w]
  have eq: "fst (iterate_worker (load_worker e cfg offset sz) n w s) =
         fst (iterate_worker (load_thread e cfg offset sz) n w s)"
    and sim: "same_but_notify (trace s) (snd (iterate_worker (load_worker e cfg offset sz) n w s))
                        (snd (iterate_worker (load_thread e cfg offset sz) n w s))"
    by simp_all
  from sim obtain new where
    n: "trace (snd (iterate_worker (load_thread e cfg offset sz) n w s)) = trace s @ new"
       "trace (snd (iterate_worker (load_worker e cfg offset sz) n w s)) = trace s @ map all_notify new"
    by (auto simp add: same_but_notify_def)
  have "pushed (trace (snd (iterate_worker (load_worker e cfg offset sz) n w s))) =
     pushed (trace (snd (iterate_worker (load_thread e cfg offset sz) n w s)))"
    unfolding n by (simp add: pushed_append pushed_all_notify)
  then show ?thesis using eq sim n by (auto simp add: same_but_notify_def)
qed

text \<open>
  Claim C9. A failed allocation of the staging buffer ends \<open>stloader_read\<close> before any
  thread has run: nothing has been read, the destination is as it was. An index whose length
  does not fit the matrix ends \<open>tensor_remap\<close> and \<open>tensor_remap_4bit\<close> with the matrix as
  it was.
\<close>

theorem early_errors_leave_target_unchanged:
  "(\<not> target_cpu tgt \<and> \<not> malloc_ok e \<longrightarrow>
      stloader_read e cfg offset sz tgt sched1 sched2 =
      Raised AllocError \<lparr>target_mem = tdata tgt, staging = Unallocated, events = []\<rparr>) \<and>
   (size1 t \<noteq> isize0 ix \<longrightarrow> tensor_remap t ix = Raised ShapeError t) \<and>
   (isize0 ix \<noteq> size1 t * 8 \<longrightarrow> tensor_remap_4bit t ix = Raised ShapeError t)"
  by (simp add: stloader_read_def tensor_remap_def tensor_remap_4bit_def TORCH_CHECK_SHAPES_def)

theorem early_errors_leave_target_unchanged_witness:
  "stloader_read (ex_env\<lparr>malloc_ok := False\<rparr>) ex_cfg 3 5 ex_gpu ex_order ex_sched =
      Raised AllocError \<lparr>target_mem = tdata ex_gpu, staging = Unallocated, events = []\<rparr> \<and>
   tensor_remap \<lparr>size0 = 1, size1 = 2, mdtype = kInt, mdata = [10, 11]\<rparr>
       \<lparr>isize0 = 3, idtype = kInt, idata = [0, 1, 1]\<rparr> =
     Raised ShapeError \<lparr>size0 = 1, size1 = 2, mdtype = kInt, mdata = [10, 11]\<rparr> \<and>
   tensor_remap_4bit \<lparr>size0 = 1, size1 = 2, mdtype = kInt, mdata = [10, 11]\<rparr>
       \<lparr>isize0 = 3, idtype = kInt, idata = [0, 1, 1]\<rparr> =
     Raised ShapeError \<lparr>size0 = 1, size1 = 2, mdtype = kInt, mdata = [10, 11]\<rparr>"
  using early_errors_leave_target_unchanged[of ex_gpu "ex_env\<lparr>malloc_ok := False\<rparr>" ex_cfg 3 5 ex_order ex_sched
      "\<lparr>size0 = 1, size1 = 2, mdtype = kInt, mdata = [10, 11]\<rparr>"
      "\<lparr>isize0 = 3, idtype = kInt, idata = [0, 1, 1]\<rparr>"]
  by (simp add: ex_gpu_def ex_env_def)

end
